theory Spec2Isabelle
  imports Main "HOL-Library.Word"
begin

unbundle bit_operations_syntax

section \<open>The cflat runtime: memory model and runtime state\<close>

text \<open>
  The runtime (\<^verbatim>\<open>runtime.cc\<close>) keeps six process globals and works on raw memory through
  \<^verbatim>\<open>uintptr_t*\<close> pointers.  The embedding threads a record of the globals, the
  memory and the standard output through every function.

  \<^item> A value of type \<^verbatim>\<open>uintptr_t\<close>, \<^verbatim>\<open>size_t\<close>, \<^verbatim>\<open>int64_t\<close> or
    \<^verbatim>\<open>long\<close> is a 64-bit word.
  \<^item> A pointer is its byte address, a natural number.  For \<^verbatim>\<open>uintptr_t *p\<close> the
    C expression \<^verbatim>\<open>p + n\<close> is \<open>p + 8 * n\<close> (\<^verbatim>\<open>WORDSIZE\<close> is 8) and
    \<^verbatim>\<open>p - n\<close> is \<open>p - 8 * n\<close>.  Pointer arithmetic that leaves the address space is
    undefined in the source and is not given a wrap-around here.
  \<^item> The casts \<^verbatim>\<open>(uintptr_t)p\<close> and \<^verbatim>\<open>(uintptr_t*)v\<close> are \<open>word_of_nat\<close> and
    \<open>unat\<close>.
  \<^item> Memory is a function from the byte address of a word to the word stored there;
    every access of the source goes through a \<^verbatim>\<open>uintptr_t*\<close>, so a cell is one word.
  \<^item> Standard output is the string of characters written so far.
\<close>

type_synonym uintptr = "64 word"
type_synonym ptr = nat
type_synonym memory = "ptr \<Rightarrow> uintptr"

record gc_state =
  heap_size :: "64 word"
  from_space :: ptr
  to_space :: ptr
  bump_ptr :: ptr
  base_frame_ptr :: ptr
  gc_log :: bool
  mem :: memory
  out :: string

definition WORDSIZE :: nat where
  "WORDSIZE = 8"

text \<open>\<^verbatim>\<open>p + n\<close> on a \<^verbatim>\<open>uintptr_t*\<close>.\<close>

definition padd :: "ptr \<Rightarrow> nat \<Rightarrow> ptr" where
  "padd p n = p + WORDSIZE * n"

text \<open>\<^verbatim>\<open>p - n\<close> on a \<^verbatim>\<open>uintptr_t*\<close>.\<close>

definition psub :: "ptr \<Rightarrow> nat \<Rightarrow> ptr" where
  "psub p n = p - WORDSIZE * n"

subsection \<open>Printing\<close>

definition endl :: string where
  "endl = [CHR 0x0A]"

definition digit_char :: "nat \<Rightarrow> char" where
  "digit_char d = ''0123456789'' ! d"

fun show_nat :: "nat \<Rightarrow> string" where
  "show_nat n = (if n < 10 then [digit_char n] else show_nat (n div 10) @ [digit_char (n mod 10)])"

declare show_nat.simps [simp del]

definition show_int :: "int \<Rightarrow> string" where
  "show_int i = (if i < 0 then CHR ''-'' # show_nat (nat (- i)) else show_nat (nat i))"

text \<open>\<^verbatim>\<open>std::cout << x\<close> for an unsigned (\<^verbatim>\<open>size_t\<close>) and a signed (\<^verbatim>\<open>long\<close>,
  \<^verbatim>\<open>int64_t\<close>) 64-bit value.\<close>

definition show_size_t :: "64 word \<Rightarrow> string" where
  "show_size_t w = show_nat (unat w)"

definition show_long :: "64 word \<Rightarrow> string" where
  "show_long w = show_int (sint w)"

definition print :: "string \<Rightarrow> gc_state \<Rightarrow> gc_state" where
  "print t s = s\<lparr>out := out s @ t\<rparr>"

text \<open>\<^verbatim>\<open>if (gc_log) std::cout << ...\<close>\<close>

definition log_print :: "string \<Rightarrow> gc_state \<Rightarrow> gc_state" where
  "log_print t s = (if gc_log s then print t s else s)"

subsection \<open>\<^verbatim>\<open>_cflat_zero_words\<close> and \<^verbatim>\<open>memcpy\<close>\<close>

text \<open>\<^verbatim>\<open>memset(start, 0, num_words * WORDSIZE)\<close>: the byte count is computed in 64 bits.\<close>

definition cflat_zero_words :: "ptr \<Rightarrow> 64 word \<Rightarrow> memory \<Rightarrow> memory" where
  "cflat_zero_words start num_words m =
     (\<lambda>a. if start \<le> a \<and> a < start + unat (num_words * word_of_nat WORDSIZE) then 0 else m a)"

text \<open>\<^verbatim>\<open>memcpy(dst, src, nbytes)\<close>; the source forbids overlap, the copy reads the old memory.\<close>

definition memcpy :: "ptr \<Rightarrow> ptr \<Rightarrow> nat \<Rightarrow> memory \<Rightarrow> memory" where
  "memcpy dst src nbytes m =
     (\<lambda>a. if dst \<le> a \<and> a < dst + nbytes then m (src + (a - dst)) else m a)"


section \<open>The allocator's collaborators: headers\<close>

text \<open>Tag values (\<^verbatim>\<open>TAG_STRUCT_ATOMIC\<close>, \<^verbatim>\<open>TAG_STRUCT_PTRS\<close>, \<^verbatim>\<open>TAG_ARRAY_ATOMIC\<close>,
  \<^verbatim>\<open>TAG_ARRAY_PTRS\<close>).\<close>

definition TAG_STRUCT_ATOMIC :: uintptr where "TAG_STRUCT_ATOMIC = 0"
definition TAG_STRUCT_PTRS :: uintptr where "TAG_STRUCT_PTRS = 4"
definition TAG_ARRAY_ATOMIC :: uintptr where "TAG_ARRAY_ATOMIC = 2"
definition TAG_ARRAY_PTRS :: uintptr where "TAG_ARRAY_PTRS = 6"

text \<open>
  \<^verbatim>\<open>get_payload_words\<close>.  \<^verbatim>\<open>long len = header >> 3\<close> is below \<open>2 ^ 61\<close>, so the signed
  \<^verbatim>\<open>long\<close> values of the source are never negative and their shifts, comparisons and
  the product \<^verbatim>\<open>len * 2\<close> agree with the unsigned ones used here.
\<close>

definition get_payload_words :: "uintptr \<Rightarrow> 64 word" where
  "get_payload_words header =
     (let len = drop_bit 3 header;
          tag = header AND 0x7
      in if tag = TAG_STRUCT_PTRS then drop_bit 5 len
         else if tag = TAG_STRUCT_ATOMIC then
           (let size = drop_bit 5 len in if 0 < size then size else len * 2)
         else len)"

text \<open>\<^verbatim>\<open>print_header_log\<close>, as the text it writes.\<close>

definition show_offsets :: "nat list \<Rightarrow> string" where
  "show_offsets is = concat (map (\<lambda>i. '' '' @ show_nat i) is)"

definition print_header_log :: "uintptr \<Rightarrow> string" where
  "print_header_log header =
     (let len = drop_bit 3 header;
          tag = header AND 0x7
      in if tag = TAG_ARRAY_ATOMIC \<or> tag = TAG_ARRAY_PTRS then
           ''[Array, len = '' @ show_long len @ '', ptrs = ''
             @ (if tag = TAG_ARRAY_PTRS then ''true'' else ''false'') @ '']''
         else if tag = TAG_STRUCT_PTRS then
           (let size = drop_bit 5 len; ptr_bitmap = len AND 0x1F
            in if ptr_bitmap = 0 then
                 ''[Struct, size = '' @ show_long size @ '', ptr offsets = none]''
               else
                 ''[Struct, size = '' @ show_long size @ '', ptr offsets =''
                   @ show_offsets [0 ..< min (unat ptr_bitmap + 1) 5] @ '']'')
         else if tag = TAG_STRUCT_ATOMIC then
           (let size = drop_bit 5 len; ptr_bitmap = len AND 0x1F
            in if 0 < size then
                 (if ptr_bitmap = 0 then
                    ''[Struct, size = '' @ show_long size @ '', ptr offsets = none]''
                  else
                    ''[Struct, size = '' @ show_long size @ '', ptr offsets =''
                      @ show_offsets (map (\<lambda>i. i + 1)
                          (filter (\<lambda>i. ptr_bitmap AND push_bit i 1 \<noteq> 0) [0 ..< 5])) @ '']'')
               else
                 ''[Struct, size = '' @ show_long (len * 2) @ '', ptr offsets = none]'')
         else ''[Unknown tag '' @ show_long tag @ '', len = '' @ show_long len @ '']'')"

subsection \<open>The lines of the log\<close>

text \<open>Each text the runtime writes, with the values it prints.\<close>

definition msg_init_heap :: "64 word \<Rightarrow> string" where
  "msg_init_heap heap_size_v =
     ''_cflat_init_gc: allocated heap of '' @ show_size_t heap_size_v @ '' words'' @ endl"

definition msg_attempt :: "64 word \<Rightarrow> string" where
  "msg_attempt num_words =
     ''_cflat_alloc: attempting to allocate '' @ show_size_t num_words @ '' words...''"

definition msg_second_attempt :: "64 word \<Rightarrow> string" where
  "msg_second_attempt num_words =
     ''_cflat_alloc: second attempt to allocate '' @ show_size_t num_words @ '' words...''"

definition msg_successful :: string where
  "msg_successful = ''successful'' @ endl"

definition msg_triggering :: string where
  "msg_triggering = ''triggering collection'' @ endl"

definition msg_out_of_memory :: string where
  "msg_out_of_memory = ''out of memory''"

definition msg_heap_words_unset :: string where
  "msg_heap_words_unset =
     ''The CFLAT_HEAP_WORDS environment variable must be set to the desired size of the heap (in words).''"

definition msg_heap_words_illegal :: string where
  "msg_heap_words_illegal =
     ''CFLAT_HEAP_WORDS must contain a positive even number with no trailing spaces.''"

definition msg_malloc_failed :: string where
  "msg_malloc_failed = ''unsuccessful allocation of heap.''"

definition msg_frame :: "nat \<Rightarrow> 64 word \<Rightarrow> string" where
  "msg_frame frame_idx gc_root_count =
     ''gc: processing stack frame '' @ show_nat frame_idx
       @ '' (from top of stack), with '' @ show_long gc_root_count @ '' pointers'' @ endl"

definition msg_pointer_offset :: "nat \<Rightarrow> string" where
  "msg_pointer_offset i = ''-- processing pointer offset '' @ show_nat i @ endl"

definition msg_forwarded :: "64 word \<Rightarrow> 64 word \<Rightarrow> string" where
  "msg_forwarded old_rel new_rel =
     ''---- copying object at relative address '' @ show_long old_rel
       @ '' with header [Forwarded]'' @ endl
     @ ''---- object forwarded to relative address '' @ show_long new_rel @ endl"

definition msg_moving :: "64 word \<Rightarrow> uintptr \<Rightarrow> 64 word \<Rightarrow> string" where
  "msg_moving rel_addr_from header rel_addr_to =
     ''---- copying object at relative address '' @ show_long rel_addr_from
       @ '' with header '' @ print_header_log header @ endl
     @ ''---- moving object from relative address '' @ show_long rel_addr_from
       @ '' to '' @ show_long rel_addr_to @ endl"

definition msg_starting_scan :: string where
  "msg_starting_scan = ''gc: starting scan'' @ endl"

definition msg_scanning :: "uintptr \<Rightarrow> string" where
  "msg_scanning header = ''-- scanning header '' @ print_header_log header @ endl"

definition msg_incrementing :: "64 word \<Rightarrow> string" where
  "msg_incrementing size_v = ''-- incrementing scanning ptr by '' @ show_size_t size_v @ endl"

definition msg_swapping :: "nat \<Rightarrow> string" where
  "msg_swapping live_words =
     ''gc: swapping from and to spaces ('' @ show_nat live_words @ '' words still live)'' @ endl"

section \<open>The collector\<close>

text \<open>The end of a half-space that starts at \<open>b\<close>: \<^verbatim>\<open>b + heap_size / 2\<close>.\<close>

definition space_end :: "gc_state \<Rightarrow> ptr \<Rightarrow> ptr" where
  "space_end s b = padd b (unat (heap_size s div 2))"

text \<open>Relative address, as logged: \<^verbatim>\<open>((uintptr_t)p - (uintptr_t)base) / WORDSIZE\<close>.\<close>

definition rel_addr :: "ptr \<Rightarrow> ptr \<Rightarrow> 64 word" where
  "rel_addr p b = (word_of_nat p - word_of_nat b) div word_of_nat WORDSIZE"

text \<open>
  \<^verbatim>\<open>process_transitive(slot_ptr, free_ptr)\<close>: the reference parameter \<^verbatim>\<open>free_ptr\<close> is
  threaded through as the second component of the state.
\<close>

definition process_transitive :: "ptr \<Rightarrow> gc_state \<times> ptr \<Rightarrow> gc_state \<times> ptr" where
  "process_transitive slot_ptr sf =
     (let s = fst sf; free_ptr = snd sf;
          obj_addr = mem s slot_ptr
      in if obj_addr = 0 then (s, free_ptr)
         else
           let old_start = from_space s;
               old_end = space_end s (from_space s)
           in if obj_addr < word_of_nat old_start \<or> word_of_nat old_end \<le> obj_addr
              then (s, free_ptr)
              else
                let obj_ptr = unat obj_addr;
                    header_ptr = psub obj_ptr 1;
                    header = mem s header_ptr;
                    new_start = to_space s;
                    new_end = space_end s (to_space s)
                in if word_of_nat new_start \<le> header \<and> header < word_of_nat new_end then
                     (let s1 = s\<lparr>mem := (mem s)(slot_ptr := header)\<rparr>;
                          s2 = log_print
                                 (msg_forwarded (rel_addr obj_ptr (from_space s1))
                                    (rel_addr (unat header) (to_space s1))) s1
                      in (s2, free_ptr))
                   else
                     let payload_words = get_payload_words header;
                         s1 = log_print
                                (msg_moving (rel_addr obj_ptr (from_space s)) header
                                   (rel_addr (padd free_ptr 1) (to_space s))) s;
                         dest_header_ptr = free_ptr;
                         dest_obj_ptr = padd free_ptr 1;
                         copy_size_words = 1 + payload_words;
                         m1 = memcpy dest_header_ptr header_ptr
                                (unat (copy_size_words * word_of_nat WORDSIZE)) (mem s1);
                         m2 = m1(header_ptr := word_of_nat dest_obj_ptr);
                         m3 = m2(slot_ptr := word_of_nat dest_obj_ptr)
                     in (s1\<lparr>mem := m3\<rparr>, padd free_ptr (unat copy_size_words)))"


subsection \<open>Root enumeration\<close>

text \<open>
  The inner loop of the stack scan:
  \<^verbatim>\<open>for (size_t i = 0; i < gc_root_count; ++i)\<close>.  The comparison converts the
  \<^verbatim>\<open>int64_t\<close> count to \<^verbatim>\<open>size_t\<close>, so the bound is the unsigned value of the word.
\<close>

function root_loop :: "ptr \<Rightarrow> 64 word \<Rightarrow> nat \<Rightarrow> gc_state \<times> ptr \<Rightarrow> gc_state \<times> ptr" where
  "root_loop frame gc_root_count i sf =
     (if i < unat gc_root_count then
        (let s1 = log_print (msg_pointer_offset i) (fst sf);
             root_slot = psub (psub frame 2) i
         in root_loop frame gc_root_count (i + 1) (process_transitive root_slot (s1, snd sf)))
      else sf)"
  by pat_completeness auto
termination
  by (relation "measure (\<lambda>(frame, c, i, sf). unat c - i)") auto

declare root_loop.simps [simp del]

text \<open>
  The outer loop \<^verbatim>\<open>while (frame < base_frame_ptr)\<close>.  It follows links read from memory
  and need not end, so its result is optional: \<open>None\<close> is a walk that never returns.
\<close>

partial_function (option) walk_stack :: "nat \<Rightarrow> ptr \<Rightarrow> gc_state \<times> ptr \<Rightarrow> (gc_state \<times> ptr) option" where
  "walk_stack frame_idx frame sf =
     (if frame < base_frame_ptr (fst sf) then
        (let gc_root_count = mem (fst sf) (psub frame 1);
             s1 = log_print (msg_frame frame_idx gc_root_count) (fst sf);
             sf2 = root_loop frame gc_root_count 0 (s1, snd sf)
         in if frame = base_frame_ptr (fst sf2) then Some sf2
            else walk_stack (frame_idx + 1) (unat (mem (fst sf2) frame)) sf2)
      else Some sf)"

declare walk_stack.simps [code]

subsection \<open>Scanning to-space\<close>

text \<open>\<^verbatim>\<open>for (size_t i = 0; i < payload_words; ++i) process_transitive(&fields[i], free_ptr)\<close>\<close>

function array_loop :: "ptr \<Rightarrow> 64 word \<Rightarrow> nat \<Rightarrow> gc_state \<times> ptr \<Rightarrow> gc_state \<times> ptr" where
  "array_loop fields_ptr payload_words i sf =
     (if i < unat payload_words then
        array_loop fields_ptr payload_words (i + 1) (process_transitive (padd fields_ptr i) sf)
      else sf)"
  by pat_completeness auto
termination
  by (relation "measure (\<lambda>(fields_ptr, w, i, sf). unat w - i)") auto

declare array_loop.simps [simp del]

text \<open>\<^verbatim>\<open>for (size_t i = 0; i < num_ptr_fields && i < payload_words; ++i)\<close>\<close>

function ts4_loop :: "ptr \<Rightarrow> 64 word \<Rightarrow> 64 word \<Rightarrow> nat \<Rightarrow> gc_state \<times> ptr \<Rightarrow> gc_state \<times> ptr" where
  "ts4_loop fields_ptr num_ptr_fields payload_words i sf =
     (if i < unat num_ptr_fields \<and> i < unat payload_words then
        ts4_loop fields_ptr num_ptr_fields payload_words (i + 1) (process_transitive (padd fields_ptr i) sf)
      else sf)"
  by pat_completeness auto
termination
  by (relation "measure (\<lambda>(fields_ptr, k, w, i, sf). unat w - i)") auto

declare ts4_loop.simps [simp del]

text \<open>
  \<^verbatim>\<open>for (size_t i = 0; i < payload_words && i < 5; ++i)
      if (i < payload_words - 1 && (ptr_bitmap & (1 << i))) process_transitive(&fields[i + 1], free_ptr);\<close>
\<close>

function ts3_loop :: "ptr \<Rightarrow> 64 word \<Rightarrow> 64 word \<Rightarrow> nat \<Rightarrow> gc_state \<times> ptr \<Rightarrow> gc_state \<times> ptr" where
  "ts3_loop fields_ptr payload_words ptr_bitmap i sf =
     (if i < unat payload_words \<and> i < 5 then
        ts3_loop fields_ptr payload_words ptr_bitmap (i + 1)
          (if i < unat (payload_words - 1) \<and> ptr_bitmap AND push_bit i 1 \<noteq> 0
           then process_transitive (padd fields_ptr (i + 1)) sf else sf)
      else sf)"
  by pat_completeness auto
termination
  by (relation "measure (\<lambda>(fields_ptr, w, b, i, sf). 5 - i)") auto

declare ts3_loop.simps [simp del]

text \<open>
  One iteration of \<^verbatim>\<open>while (scan_ptr < free_ptr)\<close>: the state is the scan cursor, the
  runtime state and the free cursor.
\<close>

definition scan_step :: "ptr \<times> gc_state \<times> ptr \<Rightarrow> ptr \<times> gc_state \<times> ptr" where
  "scan_step c =
     (let scan_ptr = fst c; s = fst (snd c); free_ptr = snd (snd c);
          header = mem s scan_ptr;
          payload_words = get_payload_words header;
          tag = header AND 0x7;
          s1 = log_print (msg_scanning header) s;
          fields_ptr = padd scan_ptr 1;
          sf2 =
            (if tag = TAG_ARRAY_PTRS then array_loop fields_ptr payload_words 0 (s1, free_ptr)
             else if tag = TAG_STRUCT_PTRS then
               (let len = drop_bit 3 header; ptr_bitmap = len AND 0x1F
                in if 0 < ptr_bitmap then
                     (let num_ptr_fields = ptr_bitmap + 1
                      in ts4_loop fields_ptr num_ptr_fields payload_words 0 (s1, free_ptr))
                   else (s1, free_ptr))
             else if tag = TAG_STRUCT_ATOMIC then
               (let len = drop_bit 3 header; size = drop_bit 5 len; ptr_bitmap = len AND 0x1F
                in if 0 < size \<and> 0 < ptr_bitmap then
                     ts3_loop fields_ptr payload_words ptr_bitmap 0 (s1, free_ptr)
                   else (s1, free_ptr))
             else (s1, free_ptr));
          size = 1 + payload_words;
          s3 = log_print (msg_incrementing size) (fst sf2)
      in (padd scan_ptr (unat size), s3, snd sf2))"

partial_function (option) scan_loop :: "ptr \<times> gc_state \<times> ptr \<Rightarrow> (ptr \<times> gc_state \<times> ptr) option" where
  "scan_loop c = (if fst c < snd (snd c) then scan_loop (scan_step c) else Some c)"

declare scan_loop.simps [code]

subsection \<open>\<^verbatim>\<open>gc_collect\<close>\<close>

text \<open>\<^verbatim>\<open>size_t live_words = free_ptr - to_space\<close>: the pointer difference, in words.\<close>

definition pdiff :: "ptr \<Rightarrow> ptr \<Rightarrow> nat" where
  "pdiff p q = (p - q) div WORDSIZE"

definition gc_collect :: "ptr \<Rightarrow> gc_state \<Rightarrow> gc_state option" where
  "gc_collect top_frame s =
     (let free_ptr = to_space s; scan_ptr = to_space s
      in case walk_stack 0 top_frame (s, free_ptr) of
           None \<Rightarrow> None
         | Some sf1 \<Rightarrow>
             (case scan_loop (scan_ptr, log_print msg_starting_scan (fst sf1), snd sf1) of
                None \<Rightarrow> None
              | Some c \<Rightarrow>
                  (let s2 = fst (snd c); free2 = snd (snd c);
                       live_words = pdiff free2 (to_space s2);
                       s3 = log_print (msg_swapping live_words) s2;
                       s4 = s3\<lparr>from_space := to_space s3, to_space := from_space s3\<rparr>
                   in Some (s4\<lparr>bump_ptr := padd (from_space s4) live_words\<rparr>))))"

section \<open>The allocator\<close>

text \<open>
  How a call of the runtime ends: it returns a value, the process exits with a status
  (\<^verbatim>\<open>exit\<close>), or the process is aborted (a failed \<^verbatim>\<open>assert\<close>, an exception nobody
  catches).  Each carries the runtime state at that moment, whose \<open>out\<close> is what was printed.
\<close>

datatype 'a outcome = Returned 'a gc_state | Exited int gc_state | Aborted gc_state

text \<open>\<^verbatim>\<open>_cflat_panic\<close>: print the message and a newline, \<^verbatim>\<open>exit(0)\<close>.\<close>

definition cflat_panic :: "string \<Rightarrow> gc_state \<Rightarrow> 'a outcome" where
  "cflat_panic message s = Exited 0 (print (message @ endl) s)"

text \<open>
  The lambda \<^verbatim>\<open>has_space\<close>: \<^verbatim>\<open>bump_ptr + n <= from_end\<close>.  The pointer sum is taken as
  the mathematical sum of the cursor and \<open>n\<close> words.  In C++ the sum is defined only
  while it stays inside the allocated block; the compiled code computes it modulo
  \<open>2 ^ 64\<close>, so the two agree exactly when the sum does not leave the 64-bit address
  space (\<open>no_overflow\<close>).  The properties of the allocator below concern such requests.
\<close>

definition has_space :: "gc_state \<Rightarrow> ptr \<Rightarrow> 64 word \<Rightarrow> bool" where
  "has_space s from_end n = (padd (bump_ptr s) (unat n) \<le> from_end)"

definition no_overflow :: "gc_state \<Rightarrow> 64 word \<Rightarrow> bool" where
  "no_overflow s n \<longleftrightarrow> padd (bump_ptr s) (unat n) < 2 ^ 64"

text \<open>The three statements of a successful attempt: bump, zero, return.\<close>

definition bump_alloc :: "64 word \<Rightarrow> gc_state \<Rightarrow> ptr outcome" where
  "bump_alloc num_words s =
     (let s1 = log_print msg_successful s;
          result = bump_ptr s1;
          s2 = s1\<lparr>bump_ptr := padd (bump_ptr s1) (unat num_words)\<rparr>;
          s3 = s2\<lparr>mem := cflat_zero_words result num_words (mem s2)\<rparr>
      in Returned result s3)"

text \<open>
  \<^verbatim>\<open>_cflat_alloc(num_words)\<close>.  \<open>caller_frame\<close> is \<^verbatim>\<open>__builtin_frame_address(1)\<close>.
  The result is \<open>None\<close> when the collector does not return.
\<close>

definition cflat_alloc :: "ptr \<Rightarrow> 64 word \<Rightarrow> gc_state \<Rightarrow> ptr outcome option" where
  "cflat_alloc caller_frame num_words s =
     (if \<not> (from_space s \<noteq> 0 \<and> to_space s \<noteq> 0 \<and> bump_ptr s \<noteq> 0 \<and> base_frame_ptr s \<noteq> 0)
      then Some (Aborted s)
      else
        let from_end = space_end s (from_space s);
            s1 = log_print (msg_attempt num_words) s
        in if has_space s1 from_end num_words then Some (bump_alloc num_words s1)
           else
             let s2 = log_print msg_triggering s1;
                 top_frame_ptr = caller_frame
             in case gc_collect top_frame_ptr s2 of
                  None \<Rightarrow> None
                | Some s3 \<Rightarrow>
                    (let from_end = space_end s3 (from_space s3);
                         s4 = log_print (msg_second_attempt num_words) s3
                     in if has_space s4 from_end num_words then Some (bump_alloc num_words s4)
                        else Some (cflat_panic msg_out_of_memory s4)))"


section \<open>Startup\<close>

text \<open>\<^verbatim>\<open>::isdigit\<close> and \<^verbatim>\<open>isspace\<close> in the C locale.\<close>

definition isdigit :: "char \<Rightarrow> bool" where
  "isdigit c = (48 \<le> (of_char c :: nat) \<and> (of_char c :: nat) \<le> 57)"

definition isspace :: "char \<Rightarrow> bool" where
  "isspace c = ((of_char c :: nat) = 32 \<or> (9 \<le> (of_char c :: nat) \<and> (of_char c :: nat) \<le> 13))"

text \<open>
  \<^verbatim>\<open>std::stoi(str, nullptr, 10)\<close>: skip white space, read an optional sign and the
  longest run of decimal digits; throw \<^verbatim>\<open>std::invalid_argument\<close> when there is no digit
  and \<^verbatim>\<open>std::out_of_range\<close> when the value is not an \<^verbatim>\<open>int\<close>.
\<close>

datatype stoi_result = Value int | Invalid_argument | Out_of_range

definition digits_value :: "string \<Rightarrow> nat" where
  "digits_value ds = foldl (\<lambda>v c. 10 * v + ((of_char c :: nat) - 48)) 0 ds"

definition stoi :: "string \<Rightarrow> stoi_result" where
  "stoi str =
     (let t = dropWhile isspace str;
          neg = (t \<noteq> [] \<and> hd t = CHR ''-'');
          u = (if t \<noteq> [] \<and> (hd t = CHR ''-'' \<or> hd t = CHR ''+'') then tl t else t);
          ds = takeWhile isdigit u
      in if ds = [] then Invalid_argument
         else
           let v = (if neg then - int (digits_value ds) else int (digits_value ds))
           in if v < - (2 ^ 31) \<or> 2 ^ 31 - 1 < v then Out_of_range else Value v)"

text \<open>\<^verbatim>\<open>get_env\<close>: the value of the variable, \<^verbatim>\<open>""\<close> when it is not set.\<close>

definition get_env :: "string option \<Rightarrow> string" where
  "get_env val = (case val of None \<Rightarrow> [] | Some v \<Rightarrow> v)"

text \<open>
  \<^verbatim>\<open>_cflat_init_gc\<close>.  The environment of the call is given by its parameters:
  \<open>frame2\<close> is \<^verbatim>\<open>__builtin_frame_address(2)\<close>, \<open>log_var\<close> and \<open>words_var\<close> are the
  variables \<^verbatim>\<open>CFLAT_GC_LOG\<close> and \<^verbatim>\<open>CFLAT_HEAP_WORDS\<close>, and \<open>malloc_result\<close> is the
  address \<^verbatim>\<open>malloc\<close> returns for the requested size (0 when it fails).  An exception
  thrown by \<^verbatim>\<open>stoi\<close> is caught nowhere, so it ends the process by
  \<^verbatim>\<open>std::terminate\<close>.
\<close>

definition cflat_init_gc ::
    "ptr \<Rightarrow> string option \<Rightarrow> string option \<Rightarrow> (64 word \<Rightarrow> ptr) \<Rightarrow> gc_state \<Rightarrow> unit outcome" where
  "cflat_init_gc frame2 log_var words_var malloc_result s =
     (if \<not> (from_space s = 0 \<and> to_space s = 0 \<and> bump_ptr s = 0 \<and> base_frame_ptr s = 0)
      then Aborted s
      else
        let s1 = s\<lparr>base_frame_ptr := frame2\<rparr>;
            gc_log_str = get_env log_var;
            s2 = s1\<lparr>gc_log := (gc_log_str = ''1'')\<rparr>;
            heap_size_str = get_env words_var
        in if heap_size_str = [] then
             cflat_panic msg_heap_words_unset s2
           else
             case (if list_all isdigit heap_size_str then
                     (case stoi heap_size_str of
                        Value v \<Rightarrow> Some (s2\<lparr>heap_size := word_of_int v\<rparr>)
                      | Invalid_argument \<Rightarrow> None
                      | Out_of_range \<Rightarrow> None)
                   else Some s2) of
               None \<Rightarrow> Aborted s2
             | Some s3 \<Rightarrow>
                 if heap_size s3 = 0 \<or> heap_size s3 mod 2 = 1 then
                   cflat_panic msg_heap_words_illegal s3
                 else
                   let s4 = s3\<lparr>from_space := malloc_result (heap_size s3 * word_of_nat WORDSIZE)\<rparr>
                   in if from_space s4 = 0 then cflat_panic msg_malloc_failed s4
                      else
                        let s5 = s4\<lparr>to_space := padd (from_space s4) (unat (heap_size s4 div 2))\<rparr>;
                            s6 = s5\<lparr>bump_ptr := from_space s5\<rparr>
                        in Returned ()
                             (log_print (msg_init_heap (heap_size s6)) s6))"

text \<open>The statics of the runtime when the process starts: all zero.\<close>

definition fresh :: "gc_state \<Rightarrow> bool" where
  "fresh s \<longleftrightarrow> heap_size s = 0 \<and> from_space s = 0 \<and> to_space s = 0 \<and> bump_ptr s = 0
     \<and> base_frame_ptr s = 0 \<and> \<not> gc_log s"

section \<open>Observations and example states\<close>

text \<open>What a call returned, how the process ended and the state it left behind.\<close>

definition returned_ptr :: "ptr outcome option \<Rightarrow> ptr option" where
  "returned_ptr r = (case r of Some (Returned p s) \<Rightarrow> Some p | _ \<Rightarrow> None)"

definition exit_status :: "'a outcome option \<Rightarrow> int option" where
  "exit_status r = (case r of Some (Exited i s) \<Rightarrow> Some i | _ \<Rightarrow> None)"

definition final_state :: "'a outcome option \<Rightarrow> gc_state option" where
  "final_state r = (case r of Some (Returned p s) \<Rightarrow> Some s | Some (Exited i s) \<Rightarrow> Some s
      | Some (Aborted s) \<Rightarrow> Some s | None \<Rightarrow> None)"

text \<open>The body of the root loop for offset \<open>i\<close> of a frame: the log line and the call.\<close>

definition root_step :: "ptr \<Rightarrow> nat \<Rightarrow> gc_state \<times> ptr \<Rightarrow> gc_state \<times> ptr" where
  "root_step frame i sf =
     process_transitive (psub (psub frame 2) i)
       (log_print (msg_pointer_offset i) (fst sf), snd sf)"

text \<open>The payload offsets the tag-0 loop forwards, from counter value \<open>i\<close> on.\<close>

definition ts3_offsets :: "64 word \<Rightarrow> 64 word \<Rightarrow> nat \<Rightarrow> nat list" where
  "ts3_offsets w b i = map (\<lambda>j. j + 1)
     (filter (\<lambda>j. j < unat (w - 1) \<and> b AND push_bit j 1 \<noteq> 0) [i ..< min (unat w) 5])"

text \<open>Two states with the same globals, the memory and the output apart.\<close>

definition same_statics :: "gc_state \<Rightarrow> gc_state \<Rightarrow> bool" where
  "same_statics s s' \<longleftrightarrow> heap_size s' = heap_size s \<and> from_space s' = from_space s
     \<and> to_space s' = to_space s \<and> bump_ptr s' = bump_ptr s
     \<and> base_frame_ptr s' = base_frame_ptr s \<and> gc_log s' = gc_log s"

text \<open>A heap of 16 words at address 4096 right after startup, logging off.\<close>

definition quiet_heap :: gc_state where
  "quiet_heap = \<lparr>heap_size = 16, from_space = 4096, to_space = 4160, bump_ptr = 4096,
     base_frame_ptr = 8192, gc_log = False, mem = (\<lambda>_. 7), out = []\<rparr>"

text \<open>
  A heap of 4 words whose from-space is full: one live array of one element (header 10
  at 4096, payload at 4104), referenced from the only root of the frame at 8000, whose
  caller frame is the terminator at 8192.
\<close>

definition full_heap :: gc_state where
  "full_heap = \<lparr>heap_size = 4, from_space = 4096, to_space = 4112, bump_ptr = 4112,
     base_frame_ptr = 8192, gc_log = False,
     mem = (\<lambda>_. 0)(4096 := 10, 4104 := 99, 7992 := 1, 7984 := 4104, 8000 := 8192),
     out = []\<rparr>"

text \<open>
  A collection in progress on a heap of 16 words: to-space holds one copied struct with
  header 516 (tag 4, size 2, \<open>k = 0\<close>) at 4160, whose field 0 still points to the
  from-space array at 4104; the free cursor is 4184.
\<close>

definition ts4_heap :: gc_state where
  "ts4_heap = \<lparr>heap_size = 16, from_space = 4096, to_space = 4160, bump_ptr = 4136,
     base_frame_ptr = 8192, gc_log = False,
     mem = (\<lambda>_. 0)(4096 := 10, 4104 := 99, 4112 := 4168, 4160 := 516, 4168 := 4104),
     out = []\<rparr>"

text \<open>The same with header 548 (tag 4, size 2, \<open>k = 4\<close>).\<close>

definition ts4_heap_k4 :: gc_state where
  "ts4_heap_k4 = ts4_heap\<lparr>mem := (mem ts4_heap)(4160 := 548)\<rparr>"

text \<open>The statics at process start, and a \<^verbatim>\<open>malloc\<close> that returns 4096.\<close>

definition boot_state :: gc_state where
  "boot_state = \<lparr>heap_size = 0, from_space = 0, to_space = 0, bump_ptr = 0,
     base_frame_ptr = 0, gc_log = False, mem = (\<lambda>_. 0), out = []\<rparr>"

definition malloc_4096 :: "64 word \<Rightarrow> ptr" where
  "malloc_4096 nbytes = 4096"

section \<open>Heaps, stacks and reachability\<close>

text \<open>
  The notions in which the properties of a collection are stated. Addresses are byte
  addresses; a half-space of \<^verbatim>\<open>heap_size / 2\<close> words has \<open>half_bytes\<close> bytes.
\<close>

definition half_bytes :: "gc_state \<Rightarrow> nat" where
  "half_bytes s = WORDSIZE * unat (heap_size s div 2)"

text \<open>The two half-spaces, as sets of addresses.\<close>

definition in_from :: "gc_state \<Rightarrow> ptr \<Rightarrow> bool" where
  "in_from s a \<longleftrightarrow> from_space s \<le> a \<and> a < from_space s + half_bytes s"

definition in_to :: "gc_state \<Rightarrow> ptr \<Rightarrow> bool" where
  "in_to s a \<longleftrightarrow> to_space s \<le> a \<and> a < to_space s + half_bytes s"

text \<open>
  The values \<^verbatim>\<open>process_transitive\<close> treats as pointers into the heap: not null and
  inside from-space.
\<close>

definition managed :: "gc_state \<Rightarrow> uintptr \<Rightarrow> bool" where
  "managed s v \<longleftrightarrow> v \<noteq> 0 \<and> in_from s (unat v)"

text \<open>The size of the object whose header is at \<open>obj\<close>: the header and the payload.\<close>

definition obj_bytes :: "memory \<Rightarrow> ptr \<Rightarrow> nat" where
  "obj_bytes m obj = WORDSIZE * (1 + unat (get_payload_words (m obj)))"

text \<open>
  The payload offsets that the scan loop of \<^verbatim>\<open>gc_collect\<close> forwards for an object with
  header \<open>h\<close>, in the order of the loops: every element of a pointer array; for tag 4
  offsets \<open>0 ..< k + 1\<close> clipped to the payload, and none when \<open>k = 0\<close>; for tag 0 the
  offsets \<open>i + 1\<close> of the set bits \<open>i\<close> of the bitmap when the size field is positive.
\<close>

definition ptr_offsets :: "uintptr \<Rightarrow> nat list" where
  "ptr_offsets h =
     (let w = get_payload_words h; tag = h AND 0x7; k = drop_bit 3 h AND 0x1F
      in if tag = TAG_ARRAY_PTRS then [0 ..< unat w]
         else if tag = TAG_STRUCT_PTRS then
           (if 0 < k then [0 ..< min (unat k + 1) (unat w)] else [])
         else if tag = TAG_STRUCT_ATOMIC then
           (if 0 < drop_bit 5 (drop_bit 3 h) \<and> 0 < k then ts3_offsets w k 0 else [])
         else [])"

text \<open>
  A record of the copies made so far: pairs of the header address of an object in
  from-space and the header address of its copy, in the order of copying.
  \<open>laid_out m c cp e\<close>: the copies lie one after the other from \<open>c\<close> to \<open>e\<close>, each with
  the size of its original in the memory \<open>m\<close>.
\<close>

fun laid_out :: "memory \<Rightarrow> ptr \<Rightarrow> (ptr \<times> ptr) list \<Rightarrow> ptr \<Rightarrow> bool" where
  "laid_out m c [] e = (e = c)"
| "laid_out m c (p # cp) e = (snd p = c \<and> laid_out m (c + obj_bytes m (fst p)) cp e)"

text \<open>The address a word of a copy was copied from; other addresses are their own source.\<close>

fun src :: "memory \<Rightarrow> (ptr \<times> ptr) list \<Rightarrow> ptr \<Rightarrow> ptr" where
  "src m [] a = a"
| "src m (p # cp) a =
     (if snd p \<le> a \<and> a < snd p + obj_bytes m (fst p) then fst p + (a - snd p) else src m cp a)"

text \<open>The objects at the header addresses \<open>objs\<close> fill the addresses from \<open>a\<close> to \<open>e\<close>.\<close>

fun tiled :: "memory \<Rightarrow> ptr \<Rightarrow> ptr list \<Rightarrow> ptr \<Rightarrow> bool" where
  "tiled m a [] e = (e = a)"
| "tiled m a (obj # objs) e = (obj = a \<and> tiled m (a + obj_bytes m obj) objs e)"

text \<open>
  The value of a slot after collection as a function of its value \<open>v\<close> before: a pointer
  to the payload of a copied object becomes the payload address of its copy, every
  other value stays.
\<close>

definition fwd_val :: "gc_state \<Rightarrow> (ptr \<times> ptr) list \<Rightarrow> uintptr \<Rightarrow> uintptr" where
  "fwd_val s cp v =
     (if managed s v then
        (case map_of cp (unat v - 8) of Some d \<Rightarrow> word_of_nat (d + 8) | None \<Rightarrow> v)
      else v)"

text \<open>
  A well-formed heap: both half-spaces lie in the 64-bit address space and are disjoint,
  from-space is filled with the objects \<open>objs\<close> up to the bump cursor, and every object
  has a payload of at least one word and a header that is not an address of to-space
  (the test by which \<^verbatim>\<open>process_transitive\<close> recognises a forwarding address).
\<close>

definition heap_ok :: "gc_state \<Rightarrow> ptr list \<Rightarrow> bool" where
  "heap_ok s objs \<longleftrightarrow>
     from_space s + half_bytes s < 2 ^ 64 \<and> to_space s + half_bytes s < 2 ^ 64
     \<and> (from_space s + half_bytes s \<le> to_space s \<or> to_space s + half_bytes s \<le> from_space s)
     \<and> tiled (mem s) (from_space s) objs (bump_ptr s)
     \<and> bump_ptr s \<le> from_space s + half_bytes s
     \<and> list_all (\<lambda>obj. \<not> in_to s (unat (mem s obj)) \<and> 1 \<le> unat (get_payload_words (mem s obj))) objs"

text \<open>
  The invariant of a collection that started in state \<open>s0\<close>, for the pair \<open>sf\<close> of the
  current state and free cursor: the copies \<open>cp\<close> fill to-space up to the free cursor,
  no object is copied twice, only objects of \<open>R\<close> are copied; in from-space exactly the
  headers of the copied objects are overwritten, with the forwarding address; outside
  from-space a word holds what its source held at the start, forwarded if the slot is
  among the slots \<open>seen\<close> by \<^verbatim>\<open>process_transitive\<close>.
\<close>

definition gc_inv ::
    "gc_state \<Rightarrow> ptr set \<Rightarrow> gc_state \<times> ptr \<Rightarrow> (ptr \<times> ptr) list \<Rightarrow> ptr set \<Rightarrow> bool" where
  "gc_inv s0 R sf cp seen \<longleftrightarrow>
     same_statics s0 (fst sf)
     \<and> laid_out (mem s0) (to_space s0) cp (snd sf)
     \<and> distinct (map fst cp) \<and> fst ` set cp \<subseteq> R
     \<and> (\<forall>a. in_from s0 a \<longrightarrow>
           mem (fst sf) a = (case map_of cp a of Some d \<Rightarrow> word_of_nat (d + 8) | None \<Rightarrow> mem s0 a))
     \<and> (\<forall>a. \<not> in_from s0 a \<and> (in_to s0 a \<longrightarrow> a < snd sf) \<longrightarrow>
           mem (fst sf) a = (if a \<in> seen then fwd_val s0 cp (mem s0 (src (mem s0) cp a))
                             else mem s0 (src (mem s0) cp a)))
     \<and> (\<forall>a \<in> seen. \<not> in_from s0 a \<and> (in_to s0 a \<longrightarrow> a < snd sf)
           \<and> (managed s0 (mem s0 (src (mem s0) cp a))
                \<longrightarrow> unat (mem s0 (src (mem s0) cp a)) - 8 \<in> fst ` set cp))"

text \<open>A slot that may be forwarded next, and the headers of the copies are not slots.\<close>

definition slot_ready :: "gc_state \<Rightarrow> ptr set \<Rightarrow> (ptr \<times> ptr) list \<Rightarrow> ptr \<Rightarrow> ptr \<Rightarrow> bool" where
  "slot_ready s0 R cp free_ptr a \<longleftrightarrow>
     \<not> in_from s0 a \<and> (in_to s0 a \<longrightarrow> a < free_ptr)
     \<and> (managed s0 (mem s0 (src (mem s0) cp a)) \<longrightarrow> unat (mem s0 (src (mem s0) cp a)) - 8 \<in> R)
     \<and> a \<notin> snd ` set cp"

definition heads_clear :: "(ptr \<times> ptr) list \<Rightarrow> ptr set \<Rightarrow> bool" where
  "heads_clear cp seen \<longleftrightarrow> (\<forall>p \<in> set cp. snd p \<notin> seen)"

text \<open>
  The stack: the root slots of a frame, the chain of frames from the top frame to the
  terminator \<^verbatim>\<open>base_frame_ptr\<close>, and the root slots of a chain in the order of the walk.
\<close>

definition frame_slots :: "memory \<Rightarrow> ptr \<Rightarrow> ptr list" where
  "frame_slots m frame = map (\<lambda>i. psub (psub frame 2) i) [0 ..< unat (m (psub frame 1))]"

fun frame_chain :: "memory \<Rightarrow> ptr \<Rightarrow> ptr \<Rightarrow> ptr list \<Rightarrow> bool" where
  "frame_chain m base frame [] = (base \<le> frame)"
| "frame_chain m base frame (f # fs) =
     (f = frame \<and> frame < base \<and> frame < unat (m frame) \<and> frame_chain m base (unat (m frame)) fs)"

definition root_slots :: "memory \<Rightarrow> ptr list \<Rightarrow> ptr list" where
  "root_slots m fs = concat (map (frame_slots m) fs)"

text \<open>A frame whose link word, root count and root slots lie outside both half-spaces.\<close>

definition off_heap :: "gc_state \<Rightarrow> ptr \<Rightarrow> bool" where
  "off_heap s a \<longleftrightarrow> \<not> in_from s a \<and> \<not> in_to s a"

definition frame_ok :: "gc_state \<Rightarrow> ptr \<Rightarrow> bool" where
  "frame_ok s frame \<longleftrightarrow>
     8 * (unat (mem s (psub frame 1)) + 1) \<le> frame
     \<and> off_heap s frame \<and> off_heap s (psub frame 1)
     \<and> list_all (off_heap s) (frame_slots (mem s) frame)"

text \<open>
  The invariant of the scan loop for a loop state \<open>c\<close> (scan cursor, state, free cursor):
  the copies before the scan cursor have all their pointer fields forwarded.
\<close>

definition scan_ok :: "gc_state \<Rightarrow> ptr set \<Rightarrow> ptr set \<Rightarrow> ptr \<times> gc_state \<times> ptr \<Rightarrow> bool" where
  "scan_ok s0 R D c \<longleftrightarrow>
     (\<exists>cp1 cp2 seen.
        gc_inv s0 R (snd c) (cp1 @ cp2) seen \<and> heads_clear (cp1 @ cp2) seen
        \<and> laid_out (mem s0) (to_space s0) cp1 (fst c)
        \<and> (\<forall>p \<in> set cp1. \<forall>j \<in> set (ptr_offsets (mem s0 (fst p))). snd p + 8 + 8 * j \<in> seen)
        \<and> D \<subseteq> seen)"

text \<open>A set of objects closed under the pointer fields the collector follows.\<close>

definition fields_closed :: "gc_state \<Rightarrow> ptr set \<Rightarrow> bool" where
  "fields_closed s0 R \<longleftrightarrow>
     (\<forall>obj \<in> R. \<forall>j \<in> set (ptr_offsets (mem s0 obj)).
        managed s0 (mem s0 (obj + 8 + 8 * j)) \<longrightarrow> unat (mem s0 (obj + 8 + 8 * j)) - 8 \<in> R)"

text \<open>
  A well-formed heap with its stack: every root and every pointer field that points into
  from-space points to the payload of one of the objects.
\<close>

definition ptr_ok :: "gc_state \<Rightarrow> ptr list \<Rightarrow> uintptr \<Rightarrow> bool" where
  "ptr_ok s objs v \<longleftrightarrow> (managed s v \<longrightarrow> 8 \<le> unat v \<and> unat v - 8 \<in> set objs)"

definition wf_heap :: "gc_state \<Rightarrow> ptr \<Rightarrow> ptr list \<Rightarrow> ptr list \<Rightarrow> bool" where
  "wf_heap s top_frame fs objs \<longleftrightarrow>
     heap_ok s objs
     \<and> frame_chain (mem s) (base_frame_ptr s) top_frame fs
     \<and> list_all (frame_ok s) fs
     \<and> list_all (\<lambda>a. ptr_ok s objs (mem s a)) (root_slots (mem s) fs)
     \<and> list_all (\<lambda>obj. list_all (\<lambda>j. ptr_ok s objs (mem s (obj + 8 + 8 * j)))
                           (ptr_offsets (mem s obj))) objs"

text \<open>
  The objects the collector traces, by the address of their headers: those a root slot
  points to, and those a field at one of the offsets \<open>ptr_offsets\<close> of a traced object
  points to. The offsets are the ones the loops of \<^verbatim>\<open>gc_collect\<close> forward, not the ones
  the specification lists (\<open>spec_ptr_offsets\<close>, \<open>spec_reach\<close> below).
\<close>

inductive_set reach :: "gc_state \<Rightarrow> ptr list \<Rightarrow> ptr set"
  for s :: gc_state and roots :: "ptr list" where
  root: "a \<in> set roots \<Longrightarrow> managed s (mem s a) \<Longrightarrow> unat (mem s a) - 8 \<in> reach s roots"
| field: "obj \<in> reach s roots \<Longrightarrow> j \<in> set (ptr_offsets (mem s obj))
     \<Longrightarrow> managed s (mem s (obj + 8 + 8 * j))
     \<Longrightarrow> unat (mem s (obj + 8 + 8 * j)) - 8 \<in> reach s roots"

text \<open>
  The pointer fields of an object as the specification words them (scan, step 3), for
  comparison with \<open>ptr_offsets\<close>: offsets \<open>0 .. W - 1\<close> for tag 6; offsets \<open>0 .. k\<close>
  with \<open>k = (h >> 3) & 0x1F\<close> for tag 4; offset \<open>i + 1\<close> for each bit \<open>i\<close> set in the
  5-bit bitmap for tag 0 with \<open>(h >> 3) >> 5 > 0\<close>; none otherwise. The objects
  reachable in the sense of the specification follow these fields.
\<close>

definition spec_ptr_offsets :: "uintptr \<Rightarrow> nat list" where
  "spec_ptr_offsets h =
     (let w = get_payload_words h; tag = h AND 0x7; k = drop_bit 3 h AND 0x1F
      in if tag = 6 then [0 ..< unat w]
         else if tag = 4 then [0 ..< unat k + 1]
         else if tag = 0 \<and> 0 < drop_bit 5 (drop_bit 3 h) then
           map (\<lambda>i. i + 1) (filter (\<lambda>i. bit k i) [0 ..< 5])
         else [])"

inductive_set spec_reach :: "gc_state \<Rightarrow> ptr list \<Rightarrow> ptr set"
  for s :: gc_state and roots :: "ptr list" where
  root: "a \<in> set roots \<Longrightarrow> managed s (mem s a) \<Longrightarrow> unat (mem s a) - 8 \<in> spec_reach s roots"
| field: "obj \<in> spec_reach s roots \<Longrightarrow> j \<in> set (spec_ptr_offsets (mem s obj))
     \<Longrightarrow> managed s (mem s (obj + 8 + 8 * j))
     \<Longrightarrow> unat (mem s (obj + 8 + 8 * j)) - 8 \<in> spec_reach s roots"

text \<open>
  The words an object occupies, header included; the distance in words of the bump
  cursor from the from-space base; and the words at a list of addresses.
\<close>

definition obj_words :: "memory \<Rightarrow> ptr \<Rightarrow> nat" where
  "obj_words m obj = 1 + unat (get_payload_words (m obj))"

definition live_words :: "gc_state \<Rightarrow> nat" where
  "live_words s = pdiff (bump_ptr s) (from_space s)"


text \<open>
  The states at the head of the scan loop \<^verbatim>\<open>while (scan_ptr < free_ptr)\<close> started in
  \<open>c0\<close>.
\<close>

inductive_set scan_states :: "ptr \<times> gc_state \<times> ptr \<Rightarrow> (ptr \<times> gc_state \<times> ptr) set"
  for c0 :: "ptr \<times> gc_state \<times> ptr" where
  start: "c0 \<in> scan_states c0"
| step: "c \<in> scan_states c0 \<Longrightarrow> fst c < snd (snd c) \<Longrightarrow> scan_step c \<in> scan_states c0"

text \<open>
  A heap of 16 words with three objects in from-space: a pointer array of two elements at
  4096 (header 22) whose element 0 points to the second object, an array of one number
  at 4120 (header 10) and an unreferenced array of one number at 4136. The frame at 8000
  has two roots, both pointing to the first object; its caller's frame at 8100 has one
  root pointing to the second object; the terminator is 8192.
\<close>

definition alias_heap :: gc_state where
  "alias_heap = \<lparr>heap_size = 16, from_space = 4096, to_space = 4160, bump_ptr = 4152,
     base_frame_ptr = 8192, gc_log = False,
     mem = (\<lambda>_. 0)(4096 := 22, 4104 := 4128, 4120 := 10, 4128 := 7, 4136 := 10, 4144 := 9,
        7992 := 2, 7984 := 4104, 7976 := 4104, 8000 := 8100,
        8092 := 1, 8084 := 4128, 8100 := 8192),
     out = []\<rparr>"


text \<open>
  A heap of 16 words with a struct at 4096 with header 516 (tag 4, size 2, \<open>k = 0\<close>)
  whose field 0 points to an array of one number at 4120 (header 10). The only root, in
  the frame at 8000, points to the struct; nothing else points to the array.
\<close>

definition k0b_heap :: gc_state where
  "k0b_heap = \<lparr>heap_size = 16, from_space = 4096, to_space = 4160, bump_ptr = 4136,
     base_frame_ptr = 8192, gc_log = False,
     mem = (\<lambda>_. 0)(4096 := 516, 4104 := 4128, 4120 := 10, 4128 := 99,
        7992 := 1, 7984 := 4104, 8000 := 8192),
     out = []\<rparr>"

section \<open>Properties\<close>

subsection \<open>Words and addresses\<close>

lemma unat_of_nat64: "a < 2 ^ 64 \<Longrightarrow> unat (word_of_nat a :: 64 word) = a"
  by (simp add: unat_of_nat)

lemma word_of_nat_less_iff64:
  "a < 2 ^ 64 \<Longrightarrow> (v < (word_of_nat a :: 64 word)) = (unat v < a)"
  by (simp add: word_less_nat_alt unat_of_nat64)

lemma word_of_nat_le_iff64:
  "a < 2 ^ 64 \<Longrightarrow> ((word_of_nat a :: 64 word) \<le> v) = (a \<le> unat v)"
  by (simp add: word_le_nat_alt unat_of_nat64)

lemma unat_times8: "unat n < 2 ^ 61 \<Longrightarrow> unat (n * 8 :: 64 word) = 8 * unat n"
  by (simp add: unat_word_ariths)

lemma zero_no_words: "cflat_zero_words p 0 m = m"
  by (rule ext) (auto simp: cflat_zero_words_def WORDSIZE_def)

subsection \<open>What logging and forwarding leave alone\<close>

lemma log_print_fields [simp]:
  "heap_size (log_print t s) = heap_size s" "from_space (log_print t s) = from_space s"
  "to_space (log_print t s) = to_space s" "bump_ptr (log_print t s) = bump_ptr s"
  "base_frame_ptr (log_print t s) = base_frame_ptr s" "gc_log (log_print t s) = gc_log s"
  "mem (log_print t s) = mem s"
  by (simp_all add: log_print_def print_def)

lemma log_print_quiet: "\<not> gc_log s \<Longrightarrow> log_print t s = s"
  by (simp add: log_print_def)

lemma has_space_log [simp]: "has_space (log_print t s) e n = has_space s e n"
  by (simp add: has_space_def)

lemma space_end_log [simp]: "space_end (log_print t s) b = space_end s b"
  by (simp add: space_end_def)

lemma process_transitive_fields:
  "heap_size (fst (process_transitive slot sf)) = heap_size (fst sf)"
  "from_space (fst (process_transitive slot sf)) = from_space (fst sf)"
  "to_space (fst (process_transitive slot sf)) = to_space (fst sf)"
  "bump_ptr (fst (process_transitive slot sf)) = bump_ptr (fst sf)"
  "base_frame_ptr (fst (process_transitive slot sf)) = base_frame_ptr (fst sf)"
  "gc_log (fst (process_transitive slot sf)) = gc_log (fst sf)"
  by (simp_all add: process_transitive_def Let_def)

lemma same_statics_refl [simp]: "same_statics s s"
  by (simp add: same_statics_def)

lemma same_statics_trans: "same_statics a b \<Longrightarrow> same_statics b c \<Longrightarrow> same_statics a c"
  by (simp add: same_statics_def)

lemma same_statics_log [simp]: "same_statics s (log_print t s)"
  by (simp add: same_statics_def)

lemma same_statics_pt: "same_statics (fst sf) (fst (process_transitive slot sf))"
  by (simp add: same_statics_def process_transitive_fields)

lemma same_statics_fold:
  assumes "\<And>x sf. same_statics (fst sf) (fst (f x sf))"
  shows "same_statics (fst sf) (fst (fold f xs sf))"
proof (induction xs arbitrary: sf)
  case Nil
  show ?case by simp
next
  case (Cons x xs)
  have "same_statics (fst sf) (fst (f x sf))" by (rule assms)
  moreover have "same_statics (fst (f x sf)) (fst (fold f xs (f x sf)))" by (rule Cons.IH)
  ultimately show ?case by (simp add: same_statics_trans)
qed

lemma same_statics_root_step: "same_statics (fst sf) (fst (root_step frame i sf))"
proof -
  have "same_statics (log_print (msg_pointer_offset i) (fst sf)) (fst (root_step frame i sf))"
    using same_statics_pt [of "(log_print (msg_pointer_offset i) (fst sf), snd sf)"]
    by (simp add: root_step_def)
  then show ?thesis by (simp add: same_statics_def)
qed

lemma same_statics_fold_pt:
  "same_statics (fst sf) (fst (fold (\<lambda>j. process_transitive (g j)) xs sf))"
  by (rule same_statics_fold) (rule same_statics_pt)

lemma quiet_fold_pt:
  "\<not> gc_log (fst sf) \<Longrightarrow> \<not> gc_log (fst (fold (\<lambda>j. process_transitive (g j)) xs sf))"
  using same_statics_fold_pt [of sf g xs] by (simp add: same_statics_def)

subsection \<open>The loops as folds\<close>

lemma root_loop_fold:
  "root_loop frame c i sf = fold (root_step frame) [i ..< unat c] sf"
proof (induction frame c i sf rule: root_loop.induct)
  case (1 frame c i sf)
  show ?case
  proof (cases "i < unat c")
    case True
    have rs: "process_transitive (psub (psub frame 2) i)
                (log_print (msg_pointer_offset i) (fst sf), snd sf)
              = root_step frame i sf"
      by (simp only: root_step_def)
    have a: "root_loop frame c i sf = root_loop frame c (i + 1) (root_step frame i sf)"
      using True by (subst root_loop.simps) (simp only: Let_def if_True rs)
    have b: "root_loop frame c (i + 1) (root_step frame i sf)
               = fold (root_step frame) [i + 1 ..< unat c] (root_step frame i sf)"
      using "1.IH" [OF True refl refl] by (simp only: rs)
    have c: "[i ..< unat c] = i # [i + 1 ..< unat c]"
      using True by (simp add: upt_conv_Cons)
    show ?thesis by (simp only: a b c fold_simps)
  next
    case False
    then show ?thesis by (subst root_loop.simps) simp
  qed
qed

lemma array_loop_fold:
  "array_loop f w i sf = fold (\<lambda>j. process_transitive (padd f j)) [i ..< unat w] sf"
proof (induction f w i sf rule: array_loop.induct)
  case (1 f w i sf)
  show ?case
  proof (cases "i < unat w")
    case True
    then have "[i ..< unat w] = i # [i + 1 ..< unat w]"
      by (simp add: upt_conv_Cons)
    with True "1.IH" [OF True] show ?thesis
      by (subst array_loop.simps) simp
  next
    case False
    then show ?thesis by (subst array_loop.simps) simp
  qed
qed

lemma ts4_loop_fold:
  "ts4_loop f k w i sf
     = fold (\<lambda>j. process_transitive (padd f j)) [i ..< min (unat k) (unat w)] sf"
proof (induction f k w i sf rule: ts4_loop.induct)
  case (1 f k w i sf)
  show ?case
  proof (cases "i < unat k \<and> i < unat w")
    case True
    then have "[i ..< min (unat k) (unat w)] = i # [i + 1 ..< min (unat k) (unat w)]"
      by (simp add: upt_conv_Cons)
    with True "1.IH" [OF True] show ?thesis
      by (subst ts4_loop.simps) simp
  next
    case False
    then show ?thesis by (subst ts4_loop.simps) auto
  qed
qed

lemma ts3_loop_fold:
  "ts3_loop f w b i sf = fold (\<lambda>j. process_transitive (padd f j)) (ts3_offsets w b i) sf"
proof (induction f w b i sf rule: ts3_loop.induct)
  case (1 f w b i sf)
  show ?case
  proof (cases "i < unat w \<and> i < 5")
    case True
    then have "[i ..< min (unat w) 5] = i # [i + 1 ..< min (unat w) 5]"
      by (simp add: upt_conv_Cons)
    with True "1.IH" [OF True] show ?thesis
      by (subst ts3_loop.simps) (simp add: ts3_offsets_def)
  next
    case False
    then show ?thesis by (subst ts3_loop.simps) (auto simp: ts3_offsets_def)
  qed
qed

subsection \<open>The allocator\<close>

text \<open>
  C1, as the spec states it: a successful request for \<open>n\<close> payload words returns the old
  bump cursor plus one word and advances the cursor by \<open>1 + n\<close> words.  On a fresh heap
  with the cursor at 4096 a request for one word returns 4096, not 4104, and leaves the
  cursor at 4104, not 4112; only the word at 4096 is zeroed.
\<close>

theorem alloc_reserves_header_counterexample:
  "returned_ptr (cflat_alloc 8000 1 quiet_heap) = Some 4096
   \<and> padd (bump_ptr quiet_heap) 1 = 4104
   \<and> map_option bump_ptr (final_state (cflat_alloc 8000 1 quiet_heap)) = Some 4104
   \<and> padd (bump_ptr quiet_heap) (1 + 1) = 4112
   \<and> map_option (\<lambda>s. map (mem s) [4096, 4104]) (final_state (cflat_alloc 8000 1 quiet_heap))
       = Some [0, 7]"
  by (simp add: cflat_alloc_def returned_ptr_def final_state_def quiet_heap_def space_end_def
      padd_def WORDSIZE_def has_space_def bump_alloc_def log_print_def cflat_zero_words_def Let_def)

text \<open>
  C1, amended to what the allocator does: a request for \<open>n \<ge> 1\<close> words that fits
  (\<open>bump + n \<le> from_space + heap_size / 2\<close>) succeeds at once, returns the old bump cursor
  itself, advances the cursor by exactly \<open>n\<close> words and zeroes exactly the \<open>n\<close> words from
  the returned address; no header slot is added, and the spaces stay where they are.
\<close>

theorem alloc_first_attempt:
  assumes init: "from_space s \<noteq> 0" "to_space s \<noteq> 0" "bump_ptr s \<noteq> 0" "base_frame_ptr s \<noteq> 0"
    and n: "1 \<le> unat n"
    and room: "padd (bump_ptr s) (unat n) \<le> space_end s (from_space s)"
    and top: "space_end s (from_space s) \<le> 2 ^ 64"
  shows "\<exists>s'. cflat_alloc caller_frame n s = Some (Returned (bump_ptr s) s')
           \<and> bump_ptr s' = padd (bump_ptr s) (unat n)
           \<and> (\<forall>a. mem s' a
                 = (if bump_ptr s \<le> a \<and> a < padd (bump_ptr s) (unat n) then 0 else mem s a))
           \<and> from_space s' = from_space s \<and> to_space s' = to_space s
           \<and> heap_size s' = heap_size s"
proof -
  have "8 * unat n < 2 ^ 64"
    using room top init by (simp add: padd_def WORDSIZE_def)
  then have "unat n < 2 ^ 61" by simp
  then have z: "unat (n * 8 :: 64 word) = 8 * unat n" by (rule unat_times8)
  show ?thesis using init room
    by (simp add: cflat_alloc_def has_space_def bump_alloc_def log_print_def print_def
        cflat_zero_words_def Let_def z padd_def WORDSIZE_def)
qed

theorem alloc_first_attempt_witness:
  "from_space quiet_heap \<noteq> 0 \<and> to_space quiet_heap \<noteq> 0 \<and> bump_ptr quiet_heap \<noteq> 0
   \<and> base_frame_ptr quiet_heap \<noteq> 0 \<and> 1 \<le> unat (3 :: 64 word)
   \<and> padd (bump_ptr quiet_heap) (unat (3 :: 64 word)) \<le> space_end quiet_heap (from_space quiet_heap)
   \<and> (\<exists>s'. cflat_alloc 8000 3 quiet_heap = Some (Returned 4096 s')
         \<and> bump_ptr s' = 4120
         \<and> (\<forall>a. mem s' a = (if 4096 \<le> a \<and> a < 4120 then 0 else 7))
         \<and> from_space s' = 4096 \<and> to_space s' = 4160)"
proof -
  have h: "from_space quiet_heap \<noteq> 0" "to_space quiet_heap \<noteq> 0" "bump_ptr quiet_heap \<noteq> 0"
    "base_frame_ptr quiet_heap \<noteq> 0" "1 \<le> unat (3 :: 64 word)"
    "padd (bump_ptr quiet_heap) (unat (3 :: 64 word)) \<le> space_end quiet_heap (from_space quiet_heap)"
    "space_end quiet_heap (from_space quiet_heap) \<le> 2 ^ 64"
    by (simp_all add: quiet_heap_def space_end_def padd_def WORDSIZE_def)
  have q: "bump_ptr quiet_heap = 4096" "from_space quiet_heap = 4096"
    "to_space quiet_heap = 4160" "\<And>a. mem quiet_heap a = 7"
    by (simp_all add: quiet_heap_def)
  have p: "padd 4096 (unat (3 :: 64 word)) = 4120"
    by (simp add: padd_def WORDSIZE_def)
  have "\<exists>s'. cflat_alloc 8000 3 quiet_heap = Some (Returned 4096 s')
         \<and> bump_ptr s' = 4120
         \<and> (\<forall>a. mem s' a = (if 4096 \<le> a \<and> a < 4120 then 0 else 7))
         \<and> from_space s' = 4096 \<and> to_space s' = 4160"
    using alloc_first_attempt [OF h, of 8000] unfolding q p by blast
  with h show ?thesis by blast
qed

text \<open>
  C10: on an initialised runtime whose bump cursor lies within from-space, a request for
  zero words succeeds on the first attempt: no collection runs, the call returns the
  current bump cursor, and nothing but the output changes (the cursor, the spaces and
  every memory word are as before).  Hence a second zero-word request returns the same
  address.
\<close>

theorem alloc_zero_words:
  assumes init: "from_space s \<noteq> 0" "to_space s \<noteq> 0" "bump_ptr s \<noteq> 0" "base_frame_ptr s \<noteq> 0"
    and inv: "bump_ptr s \<le> space_end s (from_space s)"
  shows "\<exists>s1 s2. cflat_alloc frame1 0 s = Some (Returned (bump_ptr s) s1)
           \<and> s1 = s\<lparr>out := out s1\<rparr>
           \<and> cflat_alloc frame2 0 s1 = Some (Returned (bump_ptr s) s2)
           \<and> s2 = s\<lparr>out := out s2\<rparr>"
  using init inv
  by (simp add: cflat_alloc_def has_space_def bump_alloc_def log_print_def print_def
      zero_no_words Let_def padd_def space_end_def)

theorem alloc_zero_words_witness:
  "from_space quiet_heap \<noteq> 0 \<and> to_space quiet_heap \<noteq> 0 \<and> bump_ptr quiet_heap \<noteq> 0
   \<and> base_frame_ptr quiet_heap \<noteq> 0
   \<and> bump_ptr quiet_heap \<le> space_end quiet_heap (from_space quiet_heap)
   \<and> (\<exists>s1 s2. cflat_alloc 8000 0 quiet_heap = Some (Returned 4096 s1)
         \<and> s1 = quiet_heap\<lparr>out := out s1\<rparr>
         \<and> cflat_alloc 8000 0 s1 = Some (Returned 4096 s2)
         \<and> s2 = quiet_heap\<lparr>out := out s2\<rparr>)"
proof -
  have h: "from_space quiet_heap \<noteq> 0" "to_space quiet_heap \<noteq> 0" "bump_ptr quiet_heap \<noteq> 0"
    "base_frame_ptr quiet_heap \<noteq> 0"
    "bump_ptr quiet_heap \<le> space_end quiet_heap (from_space quiet_heap)"
    by (simp_all add: quiet_heap_def space_end_def padd_def WORDSIZE_def)
  have b: "bump_ptr quiet_heap = 4096" by (simp add: quiet_heap_def)
  from alloc_zero_words [OF h, of 8000 8000] show ?thesis
    using h unfolding b by blast
qed

subsection \<open>Forwarding\<close>

text \<open>
  C8: when the slot holds 0, or an address outside from-space
  \<open>[from_space, from_space + heap_size / 2)\<close>, \<^verbatim>\<open>process_transitive\<close> returns at once:
  the runtime state (the slot, both halves of the heap, the output and so every log line)
  and the free cursor are what they were.
\<close>

theorem forward_skips_unmanaged:
  assumes top: "space_end s (from_space s) < 2 ^ 64"
    and v: "mem s slot = 0 \<or> unat (mem s slot) < from_space s
              \<or> space_end s (from_space s) \<le> unat (mem s slot)"
  shows "process_transitive slot (s, free_ptr) = (s, free_ptr)"
proof -
  have "from_space s \<le> space_end s (from_space s)"
    by (simp add: space_end_def padd_def)
  with top have f: "from_space s < 2 ^ 64" by simp
  show ?thesis using v
    by (auto simp: process_transitive_def Let_def word_of_nat_less_iff64 [OF f]
        word_of_nat_le_iff64 [OF top])
qed

theorem forward_skips_unmanaged_witness:
  "space_end full_heap (from_space full_heap) < 2 ^ 64
   \<and> mem full_heap 7000 = 0 \<and> unat (mem full_heap 4104) < from_space full_heap
   \<and> space_end full_heap (from_space full_heap) \<le> unat (mem full_heap 8000)
   \<and> process_transitive 7000 (full_heap, 4112) = (full_heap, 4112)
   \<and> process_transitive 4104 (full_heap, 4112) = (full_heap, 4112)
   \<and> process_transitive 8000 (full_heap, 4112) = (full_heap, 4112)"
proof -
  have t: "space_end full_heap (from_space full_heap) < 2 ^ 64"
    by (simp add: full_heap_def space_end_def padd_def WORDSIZE_def)
  have a: "mem full_heap 7000 = 0" by (simp add: full_heap_def)
  have b: "unat (mem full_heap 4104) < from_space full_heap" by (simp add: full_heap_def)
  have c: "space_end full_heap (from_space full_heap) \<le> unat (mem full_heap 8000)"
    by (simp add: full_heap_def space_end_def padd_def WORDSIZE_def)
  show ?thesis
    using forward_skips_unmanaged [OF t, of 7000 4112] forward_skips_unmanaged [OF t, of 4104 4112]
      forward_skips_unmanaged [OF t, of 8000 4112] t a b c
    by simp
qed

subsection \<open>Evaluating the runtime on the example states\<close>

lemmas eval_defs = process_transitive_def Let_def space_end_def padd_def psub_def
  WORDSIZE_def get_payload_words_def TAG_STRUCT_PTRS_def TAG_STRUCT_ATOMIC_def TAG_ARRAY_PTRS_def
  TAG_ARRAY_ATOMIC_def log_print_def memcpy_def pdiff_def scan_step_def
  walk_stack.simps root_loop.simps scan_loop.simps array_loop.simps ts4_loop.simps ts3_loop.simps
  gc_collect_def cflat_alloc_def has_space_def bump_alloc_def cflat_panic_def print_def
  cflat_zero_words_def

lemma full_heap_collected:
  "\<exists>s3. gc_collect 8000 full_heap = Some s3 \<and> from_space s3 = 4112 \<and> to_space s3 = 4096
     \<and> bump_ptr s3 = 4128 \<and> heap_size s3 = 4 \<and> \<not> gc_log s3 \<and> out s3 = []"
  by (simp add: full_heap_def eval_defs)

lemma ts4_heap_forward:
  "snd (process_transitive 4168 (ts4_heap, 4184)) = 4200"
  "mem (fst (process_transitive 4168 (ts4_heap, 4184))) 4168 = 4192"
  by (simp_all add: ts4_heap_def eval_defs)

subsection \<open>Scanning a struct with pointers\<close>

text \<open>
  C2, as the spec states it: for a to-space object with tag 4 the scan forwards the
  payload offsets \<open>0 .. k\<close>, so with \<open>k = 0\<close> the field at offset 0 is forwarded.  The
  struct at 4160 has tag 4 and \<open>k = 0\<close>, and its field 0 (at 4168) points to the
  from-space object at 4104, which forwarding would copy to 4192 (moving the free cursor
  to 4200).  The scan step leaves the state and the free cursor as they were.
\<close>

theorem scan_forwards_k_plus_one_counterexample:
  "mem ts4_heap 4160 AND 0x7 = 4
   \<and> drop_bit 3 (mem ts4_heap 4160) AND 0x1F = 0
   \<and> padd (padd 4160 1) 0 = 4168
   \<and> mem ts4_heap 4168 = 4104
   \<and> snd (process_transitive 4168 (ts4_heap, 4184)) = 4200
   \<and> mem (fst (process_transitive 4168 (ts4_heap, 4184))) 4168 = 4192
   \<and> scan_step (4160, ts4_heap, 4184) = (4184, ts4_heap, 4184)"
  by (simp add: ts4_heap_forward)
     (simp add: scan_step_def ts4_heap_def Let_def padd_def WORDSIZE_def get_payload_words_def
       TAG_STRUCT_PTRS_def TAG_ARRAY_PTRS_def log_print_def)

text \<open>
  C2, amended to what the scan does: for a to-space object whose header \<open>h\<close> has tag 4,
  with \<open>k = (h >> 3) & 0x1F\<close> and payload size \<open>w = (h >> 3) >> 5\<close>, one scan step
  forwards, in increasing order, exactly the fields at payload offsets \<open>0 .. min k (w - 1)\<close>
  when \<open>k > 0\<close>, and no field when \<open>k = 0\<close>; then the scan cursor advances by \<open>1 + w\<close> words.
\<close>

theorem scan_step_struct_ptrs:
  assumes tag: "mem s scan_ptr AND 0x7 = 4"
  shows "scan_step (scan_ptr, s, free_ptr) =
     (let h = mem s scan_ptr;
          k = drop_bit 3 h AND 0x1F;
          w = drop_bit 5 (drop_bit 3 h);
          offsets = (if 0 < k then [0 ..< min (unat k + 1) (unat w)] else []);
          sf = fold (\<lambda>i. process_transitive (padd (padd scan_ptr 1) i)) offsets
                 (log_print (msg_scanning h) s, free_ptr)
      in (padd scan_ptr (unat (1 + w)), log_print (msg_incrementing (1 + w)) (fst sf), snd sf))"
proof -
  define h where "h = mem s scan_ptr"
  define k where "k = drop_bit 3 h AND 0x1F"
  have w: "get_payload_words h = drop_bit 5 (drop_bit 3 h)"
    using tag by (simp add: get_payload_words_def h_def TAG_STRUCT_PTRS_def)
  have "k \<le> 0x1F" unfolding k_def by (rule word_and_le1)
  then have "unat k \<le> 31" by (simp add: word_le_nat_alt)
  then have k1: "unat (k + 1) = unat k + 1"
    by (simp add: unat_word_ariths)
  show ?thesis
    using tag
    by (simp add: scan_step_def Let_def w h_def [symmetric] k_def [symmetric] ts4_loop_fold k1
        TAG_STRUCT_PTRS_def TAG_ARRAY_PTRS_def)
qed

theorem scan_step_struct_ptrs_witness:
  "mem ts4_heap_k4 4160 AND 0x7 = 4
   \<and> scan_step (4160, ts4_heap_k4, 4184)
       = (4184, process_transitive 4176 (process_transitive 4168 (ts4_heap_k4, 4184)))"
proof -
  have tag: "mem ts4_heap_k4 4160 AND 0x7 = 4"
    by (simp add: ts4_heap_k4_def)
  have q: "\<not> gc_log ts4_heap_k4" by (simp add: ts4_heap_k4_def ts4_heap_def)
  have h: "mem ts4_heap_k4 4160 = 548" by (simp add: ts4_heap_k4_def)
  have l: "[0 ..< 2] = [0, Suc 0]" by (simp add: upt_conv_Cons)
  have q2: "\<not> gc_log (fst (fold (\<lambda>j. process_transitive (padd 4168 j)) [0, 1] (ts4_heap_k4, 4184)))"
    using q by (intro quiet_fold_pt) simp
  show ?thesis
    using scan_step_struct_ptrs [OF tag, of 4184] tag q q2
    by (simp add: h Let_def padd_def WORDSIZE_def log_print_quiet l)
qed

subsection \<open>Root enumeration\<close>

text \<open>
  C5: the walk over the stack.  Started at a frame at or past \<^verbatim>\<open>base_frame_ptr\<close> it
  visits nothing and returns the state as it is.  At a frame below the terminator it
  reads the root count \<open>R\<close> at \<open>frame - 1\<close>, forwards the slots \<open>frame - 2 - i\<close> for
  \<open>i = 0, ..., R - 1\<close> in this order (\<open>root_step frame i\<close>, each after its log line),
  and goes on with the frame whose base is stored at offset 0 of the current frame,
  numbered one higher.  \<open>R\<close> is read as an unsigned value, as the loop's comparison
  does; for the counts the compiler emits (\<open>R \<ge> 0\<close>) this is the signed value.
\<close>

theorem walk_stack_enumerates_roots:
  "walk_stack idx frame (s, free_ptr) =
     (if base_frame_ptr s \<le> frame then Some (s, free_ptr)
      else
        (let R = mem s (psub frame 1);
             sf = fold (root_step frame) [0 ..< unat R] (log_print (msg_frame idx R) s, free_ptr)
         in walk_stack (idx + 1) (unat (mem (fst sf) frame)) sf))"
proof (cases "base_frame_ptr s \<le> frame")
  case True
  then show ?thesis by (subst walk_stack.simps) simp
next
  case False
  define R where "R = mem s (psub frame 1)"
  define s1 where "s1 = log_print (msg_frame idx R) s"
  define sf where "sf = fold (root_step frame) [0 ..< unat R] (s1, free_ptr)"
  have "same_statics (fst (s1, free_ptr)) (fst sf)"
    unfolding sf_def by (rule same_statics_fold) (rule same_statics_root_step)
  then have b: "base_frame_ptr (fst sf) = base_frame_ptr s"
    by (simp add: same_statics_def s1_def)
  have "walk_stack idx frame (s, free_ptr) = walk_stack (idx + 1) (unat (mem (fst sf) frame)) sf"
    using False b unfolding sf_def s1_def R_def
    by (subst walk_stack.simps) (simp add: Let_def root_loop_fold)
  then show ?thesis using False unfolding sf_def s1_def R_def
    by (simp add: Let_def)
qed

subsection \<open>Collecting at most once\<close>

text \<open>
  In a request without overflow the test of \<^verbatim>\<open>has_space\<close> is the test on the sum
  modulo \<open>2 ^ 64\<close>.
\<close>

lemma has_space_wrap:
  "no_overflow s n \<Longrightarrow> has_space s e n \<longleftrightarrow> padd (bump_ptr s) (unat n) mod 2 ^ 64 \<le> e"
  by (simp add: no_overflow_def has_space_def)

text \<open>
  C6: every way a call of \<^verbatim>\<open>_cflat_alloc\<close> can end, on an initialised runtime and for
  a request whose pointer sum \<^verbatim>\<open>bump_ptr + n\<close> does not overflow the address space at
  the first attempt nor, if a collection runs, at the retry.  It returns from the first
  attempt without a collection (the spaces are not swapped); or the first attempt fails,
  \<^verbatim>\<open>gc_collect\<close> runs once and yields \<open>s3\<close>, and the single retry on \<open>s3\<close> either
  returns the cursor of \<open>s3\<close> (the spaces are those of \<open>s3\<close>), or fails, and then the
  process exits with status 0 after printing \<^verbatim>\<open>out of memory\<close> on \<open>s3\<close>, with no
  second collection.  It never exits with another status and never aborts; it does not
  return only if the one collection does not.
\<close>

theorem alloc_collects_at_most_once:
  assumes init: "from_space s \<noteq> 0" "to_space s \<noteq> 0" "bump_ptr s \<noteq> 0" "base_frame_ptr s \<noteq> 0"
    and first: "no_overflow s n"
    and second: "\<And>s3. gc_collect caller_frame (log_print msg_triggering (log_print (msg_attempt n) s))
                       = Some s3 \<Longrightarrow> no_overflow s3 n"
  shows "case cflat_alloc caller_frame n s of
           None \<Rightarrow>
             \<not> has_space s (space_end s (from_space s)) n
             \<and> gc_collect caller_frame (log_print msg_triggering (log_print (msg_attempt n) s)) = None
         | Some (Returned p s') \<Rightarrow>
             (has_space s (space_end s (from_space s)) n \<and> p = bump_ptr s
                \<and> from_space s' = from_space s \<and> to_space s' = to_space s)
             \<or> (\<not> has_space s (space_end s (from_space s)) n
                \<and> (\<exists>s3. gc_collect caller_frame (log_print msg_triggering (log_print (msg_attempt n) s))
                            = Some s3
                       \<and> has_space s3 (space_end s3 (from_space s3)) n \<and> p = bump_ptr s3
                       \<and> from_space s' = from_space s3 \<and> to_space s' = to_space s3))
         | Some (Exited status s') \<Rightarrow>
             status = 0
             \<and> \<not> has_space s (space_end s (from_space s)) n
             \<and> (\<exists>s3. gc_collect caller_frame (log_print msg_triggering (log_print (msg_attempt n) s))
                         = Some s3
                    \<and> \<not> has_space s3 (space_end s3 (from_space s3)) n
                    \<and> s' = print (''out of memory'' @ endl) (log_print (msg_second_attempt n) s3))
         | Some (Aborted s') \<Rightarrow> False"
  using init
  by (simp add: cflat_alloc_def bump_alloc_def cflat_panic_def Let_def msg_out_of_memory_def
      split: option.split)

theorem alloc_collects_at_most_once_witness:
  "from_space full_heap \<noteq> 0 \<and> to_space full_heap \<noteq> 0 \<and> bump_ptr full_heap \<noteq> 0
   \<and> base_frame_ptr full_heap \<noteq> 0
   \<and> no_overflow full_heap 1
   \<and> exit_status (cflat_alloc 8000 1 full_heap) = Some 0
   \<and> map_option out (final_state (cflat_alloc 8000 1 full_heap)) = Some (''out of memory'' @ endl)
   \<and> \<not> has_space full_heap (space_end full_heap (from_space full_heap)) 1
   \<and> (\<exists>s3. gc_collect 8000 full_heap = Some s3
          \<and> no_overflow s3 1
          \<and> \<not> has_space s3 (space_end s3 (from_space s3)) 1
          \<and> final_state (cflat_alloc 8000 1 full_heap) = Some (print (''out of memory'' @ endl) s3))"
proof -
  have h: "from_space full_heap \<noteq> 0" "to_space full_heap \<noteq> 0" "bump_ptr full_heap \<noteq> 0"
    "base_frame_ptr full_heap \<noteq> 0"
    by (simp_all add: full_heap_def)
  have q: "log_print t full_heap = full_heap" for t
    by (simp add: log_print_def full_heap_def)
  obtain s3 where g: "gc_collect 8000 full_heap = Some s3" and s3: "from_space s3 = 4112"
    "bump_ptr s3 = 4128" "heap_size s3 = 4" "\<not> gc_log s3" "out s3 = []"
    using full_heap_collected by blast
  have o1: "no_overflow full_heap 1"
    by (simp add: no_overflow_def padd_def WORDSIZE_def full_heap_def)
  have o2: "no_overflow s3 1"
    by (simp add: no_overflow_def padd_def WORDSIZE_def s3)
  have o2': "gc_collect 8000 (log_print msg_triggering (log_print (msg_attempt 1) full_heap)) = Some t
      \<Longrightarrow> no_overflow t 1" for t
    using o2 g by (simp add: q)
  have n1: "\<not> has_space full_heap (space_end full_heap (from_space full_heap)) 1"
    by (simp add: has_space_def space_end_def padd_def WORDSIZE_def full_heap_def)
  have n2: "\<not> has_space s3 (space_end s3 (from_space s3)) 1"
    by (simp add: has_space_def space_end_def padd_def WORDSIZE_def s3)
  have r: "cflat_alloc 8000 1 full_heap = Some (Exited 0 (print (''out of memory'' @ endl) s3))"
    using alloc_collects_at_most_once [OF h o1 o2', where caller_frame = 8000] n1 n2 s3
    by (auto simp: q g log_print_quiet split: option.splits outcome.splits)
  show ?thesis using h n1 n2 g r s3 o1 o2
    by (simp add: exit_status_def final_state_def print_def)
qed

subsection \<open>Startup\<close>

text \<open>
  C7 at the input \<^verbatim>\<open>CFLAT_HEAP_WORDS=2147483649\<close> (all digits, odd, beyond the range of
  \<^verbatim>\<open>int\<close>): on a fresh process \<^verbatim>\<open>stoi\<close> throws \<^verbatim>\<open>std::out_of_range\<close> before the
  check for zero or odd sizes is reached; nothing is printed and the process is aborted
  instead of exiting with status 0.
\<close>

theorem init_out_of_range_aborts:
  "fresh boot_state
   \<and> list_all isdigit ''2147483649''
   \<and> stoi ''2147483649'' = Out_of_range
   \<and> cflat_init_gc 9000 None (Some ''2147483649'') malloc_4096 boot_state
       = Aborted (boot_state\<lparr>base_frame_ptr := 9000\<rparr>)"
  by (simp add: fresh_def boot_state_def cflat_init_gc_def get_env_def stoi_def isdigit_def
      isspace_def digits_value_def Let_def)

subsection \<open>The scan step as a fold over the pointer offsets\<close>

lemma scan_step_eq:
  "scan_step (scan_ptr, s, free_ptr) =
     (let h = mem s scan_ptr;
          sf = fold (\<lambda>j. process_transitive (padd (padd scan_ptr 1) j)) (ptr_offsets h)
                 (log_print (msg_scanning h) s, free_ptr)
      in (padd scan_ptr (unat (1 + get_payload_words h)),
          log_print (msg_incrementing (1 + get_payload_words h)) (fst sf), snd sf))"
proof -
  define h where "h = mem s scan_ptr"
  define k where "k = drop_bit 3 h AND 0x1F"
  have "k \<le> 0x1F" unfolding k_def by (rule word_and_le1)
  then have "unat k \<le> 31" by (simp add: word_le_nat_alt)
  then have k1: "unat (k + 1) = unat k + 1"
    by (simp add: unat_word_ariths)
  show ?thesis
    by (simp add: scan_step_def Let_def h_def [symmetric] k_def [symmetric] ptr_offsets_def
        array_loop_fold ts4_loop_fold ts3_loop_fold k1)
qed

lemma unat_minus_one64: "w \<noteq> 0 \<Longrightarrow> unat (w - 1 :: 64 word) = unat w - 1"
  by (simp add: unat_minus_one)

lemma ptr_offsets_bound:
  assumes "j \<in> set (ptr_offsets h)"
  shows "j < unat (get_payload_words h)"
proof -
  define w where "w = get_payload_words h"
  have "j < unat w" if "j \<in> set (ts3_offsets w k 0)" for k
  proof -
    from that obtain i where i: "j = i + 1" "i < unat (w - 1)" "i < unat w"
      by (auto simp: ts3_offsets_def)
    then have "w \<noteq> 0" by auto
    then have "unat (w - 1) = unat w - 1" by (rule unat_minus_one64)
    with i show ?thesis by simp
  qed
  then show ?thesis using assms
    by (auto simp: ptr_offsets_def Let_def w_def [symmetric] split: if_splits)
qed

subsection \<open>The three cases of forwarding\<close>

lemma padd_bytes: "padd p n = p + 8 * n"
  by (simp add: padd_def WORDSIZE_def)

lemma psub_bytes: "psub p n = p - 8 * n"
  by (simp add: psub_def WORDSIZE_def)

lemma space_end_half: "space_end s b = b + half_bytes s"
  by (simp add: space_end_def padd_def half_bytes_def)

lemma managed_test:
  assumes "from_space s + half_bytes s < 2 ^ 64"
  shows "(v = 0 \<or> v < word_of_nat (from_space s) \<or> word_of_nat (space_end s (from_space s)) \<le> v)
           = (\<not> managed s v)"
proof -
  have f: "from_space s < 2 ^ 64" using assms by simp
  have e: "space_end s (from_space s) < 2 ^ 64" using assms by (simp add: space_end_half)
  show ?thesis
    unfolding word_of_nat_less_iff64 [OF f] word_of_nat_le_iff64 [OF e]
    by (auto simp: managed_def in_from_def space_end_half)
qed

lemma in_to_test:
  assumes "to_space s + half_bytes s < 2 ^ 64"
  shows "(word_of_nat (to_space s) \<le> h \<and> h < word_of_nat (space_end s (to_space s)))
           = in_to s (unat (h :: uintptr))"
proof -
  have f: "to_space s < 2 ^ 64" using assms by simp
  have e: "space_end s (to_space s) < 2 ^ 64" using assms by (simp add: space_end_half)
  show ?thesis
    unfolding word_of_nat_less_iff64 [OF e] word_of_nat_le_iff64 [OF f]
    by (auto simp: in_to_def space_end_half)
qed

lemma pt_skip:
  assumes "from_space s + half_bytes s < 2 ^ 64" and "\<not> managed s (mem s a)"
  shows "process_transitive a (s, free_ptr) = (s, free_ptr)"
  using assms(2) managed_test [OF assms(1), of "mem s a"]
  by (auto simp: process_transitive_def Let_def)

lemma pt_forwarded:
  assumes "from_space s + half_bytes s < 2 ^ 64" and "to_space s + half_bytes s < 2 ^ 64"
    and "managed s (mem s a)" and "in_to s (unat (mem s (unat (mem s a) - 8)))"
  shows "\<exists>s'. process_transitive a (s, free_ptr) = (s', free_ptr) \<and> same_statics s s'
           \<and> mem s' = (mem s)(a := mem s (unat (mem s a) - 8))"
proof -
  have m: "\<not> (mem s a = 0 \<or> mem s a < word_of_nat (from_space s)
             \<or> word_of_nat (space_end s (from_space s)) \<le> mem s a)"
    using assms(3) managed_test [OF assms(1), of "mem s a"] by simp
  have t: "word_of_nat (to_space s) \<le> mem s (unat (mem s a) - 8)
           \<and> mem s (unat (mem s a) - 8) < word_of_nat (space_end s (to_space s))"
    using assms(4) in_to_test [OF assms(2), of "mem s (unat (mem s a) - 8)"] by simp
  show ?thesis using m t
    by (simp add: process_transitive_def Let_def psub_bytes same_statics_def)
qed

lemma unat_copy_size:
  assumes "obj_bytes m obj < 2 ^ 64"
  shows "unat (1 + get_payload_words (m obj)) = 1 + unat (get_payload_words (m obj))"
    and "unat ((1 + get_payload_words (m obj)) * word_of_nat WORDSIZE) = obj_bytes m obj"
proof -
  let ?w = "get_payload_words (m obj)"
  have b: "8 * (1 + unat ?w) < 2 ^ 64" using assms by (simp add: obj_bytes_def WORDSIZE_def)
  then have "1 + unat ?w < 2 ^ 64" by simp
  then show a: "unat (1 + ?w) = 1 + unat ?w"
    by (simp add: unat_word_ariths)
  have "unat (1 + ?w) < 2 ^ 61" using b a by simp
  then have "unat ((1 + ?w) * 8) = 8 * unat (1 + ?w)" by (rule unat_times8)
  then show "unat ((1 + ?w) * word_of_nat WORDSIZE) = obj_bytes m obj"
    by (simp add: a obj_bytes_def WORDSIZE_def)
qed

lemma pt_copy:
  assumes "from_space s + half_bytes s < 2 ^ 64" and "to_space s + half_bytes s < 2 ^ 64"
    and "managed s (mem s a)" and "\<not> in_to s (unat (mem s (unat (mem s a) - 8)))"
    and "obj_bytes (mem s) (unat (mem s a) - 8) < 2 ^ 64"
  shows "\<exists>s'. process_transitive a (s, free_ptr)
                 = (s', free_ptr + obj_bytes (mem s) (unat (mem s a) - 8))
           \<and> same_statics s s'
           \<and> mem s' = (memcpy free_ptr (unat (mem s a) - 8)
                          (obj_bytes (mem s) (unat (mem s a) - 8)) (mem s))
                        (unat (mem s a) - 8 := word_of_nat (free_ptr + 8),
                         a := word_of_nat (free_ptr + 8))"
proof -
  have m: "\<not> (mem s a = 0 \<or> mem s a < word_of_nat (from_space s)
             \<or> word_of_nat (space_end s (from_space s)) \<le> mem s a)"
    using assms(3) managed_test [OF assms(1), of "mem s a"] by simp
  have t: "(word_of_nat (to_space s) \<le> mem s (unat (mem s a) - 8)
           \<and> mem s (unat (mem s a) - 8) < word_of_nat (space_end s (to_space s))) = False"
    using assms(4) in_to_test [OF assms(2), of "mem s (unat (mem s a) - 8)"] by simp
  note u = unat_copy_size [OF assms(5)]
  have o: "8 + 8 * unat (get_payload_words (mem s (unat (mem s a) - 8)))
             = obj_bytes (mem s) (unat (mem s a) - 8)"
    by (simp add: obj_bytes_def WORDSIZE_def)
  show ?thesis using m
    by (simp add: process_transitive_def Let_def psub_bytes padd_bytes same_statics_def u o t
        del: of_nat_add)
qed

subsection \<open>Copies laid out in to-space\<close>

lemma obj_bytes_pos: "8 \<le> obj_bytes m obj"
  by (simp add: obj_bytes_def WORDSIZE_def)

lemma laid_out_le: "laid_out m c cp e \<Longrightarrow> c \<le> e"
proof (induction cp arbitrary: c)
  case Nil
  then show ?case by simp
next
  case (Cons p cp)
  then have "c + obj_bytes m (fst p) \<le> e" by simp
  then show ?case by simp
qed

lemma laid_out_mem:
  "laid_out m c cp e \<Longrightarrow> (obj, d) \<in> set cp \<Longrightarrow> c \<le> d \<and> d + obj_bytes m obj \<le> e"
proof (induction cp arbitrary: c)
  case Nil
  then show ?case by simp
next
  case (Cons p cp)
  from Cons.prems(1) have p: "snd p = c" and r: "laid_out m (c + obj_bytes m (fst p)) cp e"
    by simp_all
  show ?case
  proof (cases "(obj, d) = p")
    case True
    with p r laid_out_le [OF r] show ?thesis by auto
  next
    case False
    with Cons.prems(2) have "(obj, d) \<in> set cp" by auto
    from Cons.IH [OF r this] show ?thesis by simp
  qed
qed

lemma laid_out_snoc:
  "laid_out m c cp e \<Longrightarrow> laid_out m c (cp @ [(obj, e)]) (e + obj_bytes m obj)"
  by (induction cp arbitrary: c) auto

lemma laid_out_sum:
  "laid_out m c cp e \<Longrightarrow> c + sum_list (map (obj_bytes m) (map fst cp)) = e"
proof (induction cp arbitrary: c)
  case Nil
  then show ?case by simp
next
  case (Cons p cp)
  then have "(c + obj_bytes m (fst p)) + sum_list (map (obj_bytes m) (map fst cp)) = e"
    by simp
  then show ?case by simp
qed

lemma laid_out_append:
  "laid_out m c (xs @ ys) e = (\<exists>d. laid_out m c xs d \<and> laid_out m d ys e)"
  by (induction xs arbitrary: c) auto

lemma tiled_le: "tiled m a objs e \<Longrightarrow> a \<le> e"
proof (induction objs arbitrary: a)
  case Nil
  then show ?case by simp
next
  case (Cons x objs)
  from Cons.prems have r: "tiled m (a + obj_bytes m x) objs e" by auto
  from Cons.IH [OF r] show ?case by simp
qed

lemma tiled_mem:
  "tiled m a objs e \<Longrightarrow> obj \<in> set objs \<Longrightarrow> a \<le> obj \<and> obj + obj_bytes m obj \<le> e"
proof (induction objs arbitrary: a)
  case Nil
  then show ?case by simp
next
  case (Cons x objs)
  from Cons.prems(1) have x: "x = a" and r: "tiled m (a + obj_bytes m x) objs e"
    by auto
  have le: "a + obj_bytes m x \<le> e" using r by (rule tiled_le)
  show ?case
  proof (cases "obj = x")
    case True
    with x le show ?thesis by simp
  next
    case False
    with Cons.prems(2) have "obj \<in> set objs" by simp
    from Cons.IH [OF r this] show ?thesis by simp
  qed
qed

lemma tiled_sum:
  "tiled m a objs e \<Longrightarrow> a + sum_list (map (obj_bytes m) objs) = e"
proof (induction objs arbitrary: a)
  case Nil
  then show ?case by simp
next
  case (Cons x objs)
  from Cons.prems have x: "x = a" and r: "tiled m (a + obj_bytes m x) objs e"
    by auto
  from Cons.IH [OF r] show ?case by (simp add: x)
qed

lemma tiled_apart:
  "tiled m a objs e \<Longrightarrow> x \<in> set objs \<Longrightarrow> y \<in> set objs \<Longrightarrow> x \<le> y
     \<Longrightarrow> y < x + obj_bytes m x \<Longrightarrow> y = x"
proof (induction objs arbitrary: a)
  case Nil
  then show ?case by simp
next
  case (Cons z objs)
  from Cons.prems(1) have z: "z = a" and r: "tiled m (a + obj_bytes m z) objs e"
    by auto
  show ?case
  proof (cases "x = z")
    case True
    show ?thesis
    proof (cases "y = z")
      case True
      with \<open>x = z\<close> show ?thesis by simp
    next
      case False
      with Cons.prems(3) have "y \<in> set objs" by simp
      from tiled_mem [OF r this] Cons.prems(5) True z show ?thesis by simp
    qed
  next
    case False
    with Cons.prems(2) have xs: "x \<in> set objs" by simp
    show ?thesis
    proof (cases "y = z")
      case True
      from tiled_mem [OF r xs] Cons.prems(4) True z obj_bytes_pos [of m z] show ?thesis by simp
    next
      case False
      with Cons.prems(3) have "y \<in> set objs" by simp
      from Cons.IH [OF r xs this Cons.prems(4,5)] show ?thesis .
    qed
  qed
qed

lemma tiled_distinct: "tiled m a objs e \<Longrightarrow> distinct objs"
proof (induction objs arbitrary: a)
  case Nil
  then show ?case by simp
next
  case (Cons z objs)
  from Cons.prems have z: "z = a" and r: "tiled m (a + obj_bytes m z) objs e"
    by auto
  have "z \<notin> set objs"
  proof
    assume "z \<in> set objs"
    from tiled_mem [OF r this] z obj_bytes_pos [of m z] show False by simp
  qed
  with Cons.IH [OF r] show ?case by simp
qed

lemma sum_list_subset_le:
  fixes f :: "'a \<Rightarrow> nat"
  assumes "distinct xs" and "distinct ys" and "set xs \<subseteq> set ys"
  shows "sum_list (map f xs) \<le> sum_list (map f ys)"
proof -
  have "sum_list (map f xs) = sum f (set xs)"
    using assms(1) by (simp add: sum_list_distinct_conv_sum_set)
  also have "\<dots> \<le> sum f (set ys)"
    using assms(3) by (intro sum_mono2) auto
  also have "\<dots> = sum_list (map f ys)"
    using assms(2) by (simp add: sum_list_distinct_conv_sum_set)
  finally show ?thesis .
qed

lemma src_snoc_other:
  "\<not> (d \<le> a \<and> a < d + obj_bytes m obj) \<Longrightarrow> src m (cp @ [(obj, d)]) a = src m cp a"
  by (induction cp) auto

lemma src_beyond: "laid_out m c cp e \<Longrightarrow> e \<le> a \<Longrightarrow> src m cp a = a"
proof (induction cp arbitrary: c)
  case Nil
  then show ?case by simp
next
  case (Cons p cp)
  from Cons.prems(1) have p: "snd p = c" and r: "laid_out m (c + obj_bytes m (fst p)) cp e"
    by simp_all
  from laid_out_le [OF r] Cons.prems(2) have "\<not> a < snd p + obj_bytes m (fst p)"
    using p by simp
  with Cons.IH [OF r Cons.prems(2)] show ?case by simp
qed

lemma src_below: "laid_out m c cp e \<Longrightarrow> a < c \<Longrightarrow> src m cp a = a"
proof (induction cp arbitrary: c)
  case Nil
  then show ?case by simp
next
  case (Cons p cp)
  from Cons.prems(1) have p: "snd p = c" and r: "laid_out m (c + obj_bytes m (fst p)) cp e"
    by simp_all
  have "a < c + obj_bytes m (fst p)" using Cons.prems(2) by simp
  from Cons.IH [OF r this] Cons.prems(2) p show ?case by simp
qed

lemma src_new:
  "laid_out m c cp e \<Longrightarrow> e \<le> a \<Longrightarrow> a < e + obj_bytes m obj
     \<Longrightarrow> src m (cp @ [(obj, e)]) a = obj + (a - e)"
proof (induction cp arbitrary: c)
  case Nil
  then show ?case by simp
next
  case (Cons p cp)
  from Cons.prems(1) have p: "snd p = c" and r: "laid_out m (c + obj_bytes m (fst p)) cp e"
    by simp_all
  from laid_out_le [OF r] Cons.prems(2) have "\<not> a < snd p + obj_bytes m (fst p)"
    using p by simp
  with Cons.IH [OF r Cons.prems(2,3)] show ?case by simp
qed

lemma src_copy:
  "laid_out m c cp e \<Longrightarrow> (obj, d) \<in> set cp \<Longrightarrow> k < obj_bytes m obj
     \<Longrightarrow> src m cp (d + k) = obj + k"
proof (induction cp arbitrary: c)
  case Nil
  then show ?case by simp
next
  case (Cons p cp)
  from Cons.prems(1) have p: "snd p = c" and r: "laid_out m (c + obj_bytes m (fst p)) cp e"
    by simp_all
  show ?case
  proof (cases "(obj, d) = p")
    case True
    with Cons.prems(3) show ?thesis by auto
  next
    case False
    with Cons.prems(2) have i: "(obj, d) \<in> set cp" by auto
    from laid_out_mem [OF r i] have "\<not> d + k < snd p + obj_bytes m (fst p)"
      using p by simp
    with Cons.IH [OF r i Cons.prems(3)] show ?thesis by simp
  qed
qed

subsection \<open>Well-formed heaps and the invariant of a collection\<close>

lemma same_statics_regions:
  assumes "same_statics s0 s"
  shows "half_bytes s = half_bytes s0" "in_from s = in_from s0" "in_to s = in_to s0"
    "managed s = managed s0"
  using assms
  by (auto simp: same_statics_def half_bytes_def in_from_def in_to_def managed_def fun_eq_iff)

lemma heap_ok_obj:
  assumes "heap_ok s objs" and "obj \<in> set objs"
  shows "from_space s \<le> obj" "obj + obj_bytes (mem s) obj \<le> from_space s + half_bytes s"
    "\<not> in_to s (unat (mem s obj))" "16 \<le> obj_bytes (mem s) obj"
    "in_from s obj" "k < obj_bytes (mem s) obj \<Longrightarrow> in_from s (obj + k)"
proof -
  from assms have t: "tiled (mem s) (from_space s) objs (bump_ptr s)"
    and b: "bump_ptr s \<le> from_space s + half_bytes s"
    and l: "\<not> in_to s (unat (mem s obj)) \<and> 1 \<le> unat (get_payload_words (mem s obj))"
    by (auto simp: heap_ok_def list_all_iff)
  from tiled_mem [OF t assms(2)] b
  show 1: "from_space s \<le> obj" and 2: "obj + obj_bytes (mem s) obj \<le> from_space s + half_bytes s"
    by simp_all
  from l show "\<not> in_to s (unat (mem s obj))" by simp
  from l show 4: "16 \<le> obj_bytes (mem s) obj" by (simp add: obj_bytes_def WORDSIZE_def)
  from 1 2 4 show "in_from s obj" by (simp add: in_from_def)
  from 1 2 show "k < obj_bytes (mem s) obj \<Longrightarrow> in_from s (obj + k)" by (simp add: in_from_def)
qed

lemma heap_ok_apart:
  assumes "heap_ok s objs" and "x \<in> set objs" and "x + k \<in> set objs"
    and "k < obj_bytes (mem s) x"
  shows "k = 0"
proof -
  from assms(1) have t: "tiled (mem s) (from_space s) objs (bump_ptr s)"
    by (simp add: heap_ok_def)
  from tiled_apart [OF t assms(2,3)] assms(4) show ?thesis by simp
qed

lemma heap_ok_disjoint:
  assumes "heap_ok s objs"
  shows "in_from s a \<Longrightarrow> \<not> in_to s a"
  using assms by (auto simp: heap_ok_def in_from_def in_to_def)

text \<open>The free cursor stays inside to-space as long as distinct objects are copied.\<close>

lemma copied_bound:
  assumes h: "heap_ok s0 objs" and lo: "laid_out (mem s0) (to_space s0) cp e"
    and d: "distinct (map fst cp)" and sub: "fst ` set cp \<subseteq> set objs"
  shows "e \<le> to_space s0 + half_bytes s0"
proof -
  from h have t: "tiled (mem s0) (from_space s0) objs (bump_ptr s0)"
    and b: "bump_ptr s0 \<le> from_space s0 + half_bytes s0"
    by (auto simp: heap_ok_def)
  have "sum_list (map (obj_bytes (mem s0)) (map fst cp)) \<le> sum_list (map (obj_bytes (mem s0)) objs)"
    using d tiled_distinct [OF t] sub by (intro sum_list_subset_le) auto
  with laid_out_sum [OF lo] tiled_sum [OF t] b show ?thesis by simp
qed

subsection \<open>Forwarding preserves the invariant\<close>

lemma fwd_val_unmanaged: "\<not> managed s v \<Longrightarrow> fwd_val s cp v = v"
  by (simp add: fwd_val_def)

lemma map_of_snoc_Some: "map_of cp k = Some d \<Longrightarrow> map_of (cp @ [p]) k = Some d"
  by (simp add: map_add_def)

lemma map_of_snoc_None:
  "map_of cp k = None \<Longrightarrow> map_of (cp @ [(obj, e)]) k = (if k = obj then Some e else None)"
  by (simp add: map_add_def)

lemma map_of_in: "distinct (map fst cp) \<Longrightarrow> (k, d) \<in> set cp \<Longrightarrow> map_of cp k = Some d"
  by simp

lemma map_of_dom: "k \<in> fst ` set cp \<Longrightarrow> \<exists>d. map_of cp k = Some d \<and> (k, d) \<in> set cp"
  by (metis map_of_eq_None_iff map_of_SomeD not_Some_eq)

lemma forward_inv:
  assumes h: "heap_ok s0 objs" and R: "R \<subseteq> set objs"
    and inv: "gc_inv s0 R (s, free_ptr) cp seen"
    and a1: "\<not> in_from s0 a" and a2: "in_to s0 a \<longrightarrow> a < free_ptr"
    and tg: "managed s0 (mem s0 (src (mem s0) cp a))
               \<longrightarrow> unat (mem s0 (src (mem s0) cp a)) - 8 \<in> R"
  shows "\<exists>cp'. gc_inv s0 R (process_transitive a (s, free_ptr)) cp' (insert a seen)
           \<and> (cp' = cp \<or> (managed s0 (mem s0 (src (mem s0) cp a))
                 \<and> cp' = cp @ [(unat (mem s0 (src (mem s0) cp a)) - 8, free_ptr)]))"
proof -
  let ?m0 = "mem s0"
  let ?T = "to_space s0"
  let ?hb = "half_bytes s0"
  define v0 where "v0 = ?m0 (src ?m0 cp a)"
  from inv have st: "same_statics s0 s"
    and lo: "laid_out ?m0 ?T cp free_ptr"
    and di: "distinct (map fst cp)" and sub: "fst ` set cp \<subseteq> R"
    and fr: "\<And>x. in_from s0 x \<Longrightarrow>
               mem s x = (case map_of cp x of Some d \<Rightarrow> word_of_nat (d + 8) | None \<Rightarrow> ?m0 x)"
    and ot: "\<And>x. \<not> in_from s0 x \<Longrightarrow> (in_to s0 x \<longrightarrow> x < free_ptr) \<Longrightarrow>
               mem s x = (if x \<in> seen then fwd_val s0 cp (?m0 (src ?m0 cp x)) else ?m0 (src ?m0 cp x))"
    and dn: "\<And>x. x \<in> seen \<Longrightarrow> \<not> in_from s0 x \<and> (in_to s0 x \<longrightarrow> x < free_ptr)
               \<and> (managed s0 (?m0 (src ?m0 cp x)) \<longrightarrow> unat (?m0 (src ?m0 cp x)) - 8 \<in> fst ` set cp)"
    by (simp_all add: gc_inv_def)
  note reg = same_statics_regions [OF st]
  from h have top: "from_space s0 + half_bytes s0 < 2 ^ 64" "to_space s0 + half_bytes s0 < 2 ^ 64"
    by (simp_all add: heap_ok_def)
  from st top have tops: "from_space s + half_bytes s < 2 ^ 64" "to_space s + half_bytes s < 2 ^ 64"
    by (simp_all add: reg same_statics_def)
  from sub R have subo: "fst ` set cp \<subseteq> set objs" by blast
  have fb: "free_ptr \<le> ?T + ?hb"
    using copied_bound [OF h _ di subo] lo by simp
  have va: "mem s a = (if a \<in> seen then fwd_val s0 cp v0 else v0)"
    using ot [OF a1 a2] by (simp add: v0_def)
  \<comment> \<open>a copy's payload address is a to-space address\<close>
  have K: "in_to s0 (d + 8) \<and> unat (word_of_nat (d + 8) :: uintptr) = d + 8
            \<and> \<not> managed s0 (word_of_nat (d + 8))" if "(obj, d) \<in> set cp" for obj d
  proof -
    from that subo have o: "obj \<in> set objs" by force
    from laid_out_mem [OF lo that] have "?T \<le> d" "d + obj_bytes ?m0 obj \<le> free_ptr" by simp_all
    moreover from heap_ok_obj(4) [OF h o] have "16 \<le> obj_bytes ?m0 obj" by simp
    ultimately have i: "?T \<le> d + 8" "d + 8 < ?T + ?hb" using fb by simp_all
    then have t: "in_to s0 (d + 8)" by (simp add: in_to_def)
    from i top have "d + 8 < 2 ^ 64" by simp
    then have u: "unat (word_of_nat (d + 8) :: uintptr) = d + 8" by (rule unat_of_nat64)
    from t heap_ok_disjoint [OF h, of "d + 8"] have "\<not> in_from s0 (d + 8)" by blast
    with t u show ?thesis by (simp add: managed_def)
  qed
  show ?thesis
  proof (cases "managed s0 (mem s a)")
    case False
    then have "\<not> managed s (mem s a)" by (simp add: reg)
    from pt_skip [OF tops(1) this] have pt: "process_transitive a (s, free_ptr) = (s, free_ptr)" .
    have f: "mem s a = fwd_val s0 cp v0"
      using va False by (auto simp: fwd_val_unmanaged)
    have g: "managed s0 v0 \<longrightarrow> unat v0 - 8 \<in> fst ` set cp"
    proof (cases "a \<in> seen")
      case True
      with dn [OF True] show ?thesis by (simp add: v0_def)
    next
      case False
      with va \<open>\<not> managed s0 (mem s a)\<close> show ?thesis by simp
    qed
    have "gc_inv s0 R (s, free_ptr) cp (insert a seen)"
      unfolding gc_inv_def
    proof (intro conjI allI impI ballI)
      fix x assume "\<not> in_from s0 x \<and> (in_to s0 x \<longrightarrow> x < snd (s, free_ptr))"
      then have x: "\<not> in_from s0 x" "in_to s0 x \<longrightarrow> x < free_ptr" by simp_all
      show "mem (fst (s, free_ptr)) x =
          (if x \<in> insert a seen then fwd_val s0 cp (mem s0 (src (mem s0) cp x))
           else mem s0 (src (mem s0) cp x))"
        using ot [OF x] f by (auto simp: v0_def)
    next
      fix x assume "x \<in> insert a seen"
      then show "\<not> in_from s0 x" using a1 dn by auto
    next
      fix x assume "x \<in> insert a seen" "in_to s0 x"
      then show "x < snd (s, free_ptr)" using a2 dn by auto
    next
      fix x assume "x \<in> insert a seen" "managed s0 (mem s0 (src (mem s0) cp x))"
      then show "unat (mem s0 (src (mem s0) cp x)) - 8 \<in> fst ` set cp"
        using g dn by (auto simp: v0_def)
    qed (use st lo di sub fr in \<open>simp_all\<close>)
    with pt show ?thesis by auto
  next
    case True
    have nd: "a \<notin> seen"
    proof
      assume d: "a \<in> seen"
      with va have e: "mem s a = fwd_val s0 cp v0" by simp
      show False
      proof (cases "managed s0 v0")
        case False
        with e True show False by (simp add: fwd_val_unmanaged)
      next
        case m: True
        with dn [OF d] have "unat v0 - 8 \<in> fst ` set cp" by (simp add: v0_def)
        from map_of_dom [OF this] obtain d' where
          "map_of cp (unat v0 - 8) = Some d'" "(unat v0 - 8, d') \<in> set cp" by blast
        with e m K [of "unat v0 - 8" d'] True show False by (simp add: fwd_val_def)
      qed
    qed
    with va have av: "mem s a = v0" by simp
    with True have mv: "managed s0 v0" by simp
    define obj where "obj = unat v0 - 8"
    from tg mv have oR: "obj \<in> R" by (simp add: obj_def v0_def)
    with R have oo: "obj \<in> set objs" by blast
    note ob = heap_ok_obj [OF h oo]
    have hd: "mem s obj = (case map_of cp obj of Some d \<Rightarrow> word_of_nat (d + 8) | None \<Rightarrow> ?m0 obj)"
      using fr [OF ob(5)] .
    have ms: "managed s (mem s a)" using True by (simp add: reg)
    show ?thesis
    proof (cases "map_of cp obj")
      case (Some d)
      then have in_cp: "(obj, d) \<in> set cp" by (rule map_of_SomeD)
      from hd Some have hv: "mem s obj = word_of_nat (d + 8)" by simp
      from K [OF in_cp] have "in_to s (unat (mem s (unat (mem s a) - 8)))"
        by (simp add: av obj_def [symmetric] hv reg)
      from pt_forwarded [OF tops ms this, of free_ptr] obtain s' where
        pt: "process_transitive a (s, free_ptr) = (s', free_ptr)" and st': "same_statics s s'"
        and m': "mem s' = (mem s)(a := word_of_nat (d + 8))"
        by (auto simp: av obj_def [symmetric] hv)
      have f: "fwd_val s0 cp v0 = word_of_nat (d + 8)"
        using mv Some by (simp add: fwd_val_def obj_def)
      have "gc_inv s0 R (s', free_ptr) cp (insert a seen)"
        unfolding gc_inv_def
      proof (intro conjI allI impI ballI)
        show "same_statics s0 (fst (s', free_ptr))"
          using same_statics_trans [OF st st'] by simp
      next
        fix x assume x: "in_from s0 x"
        with a1 have "x \<noteq> a" by auto
        then show "mem (fst (s', free_ptr)) x =
            (case map_of cp x of Some d \<Rightarrow> word_of_nat (d + 8) | None \<Rightarrow> mem s0 x)"
          using fr [OF x] by (simp add: m')
      next
        fix x assume "\<not> in_from s0 x \<and> (in_to s0 x \<longrightarrow> x < snd (s', free_ptr))"
        then have x: "\<not> in_from s0 x" "in_to s0 x \<longrightarrow> x < free_ptr" by simp_all
        show "mem (fst (s', free_ptr)) x =
            (if x \<in> insert a seen then fwd_val s0 cp (mem s0 (src (mem s0) cp x))
             else mem s0 (src (mem s0) cp x))"
          using ot [OF x] f by (auto simp: m' v0_def)
      next
        fix x assume "x \<in> insert a seen"
        then show "\<not> in_from s0 x" using a1 dn by auto
      next
        fix x assume "x \<in> insert a seen" "in_to s0 x"
        then show "x < snd (s', free_ptr)" using a2 dn by auto
      next
        fix x assume "x \<in> insert a seen" "managed s0 (mem s0 (src (mem s0) cp x))"
        then show "unat (mem s0 (src (mem s0) cp x)) - 8 \<in> fst ` set cp"
          using in_cp dn by (force simp: v0_def obj_def)
      qed (use lo di sub in \<open>simp_all\<close>)
      with pt show ?thesis by auto
    next
      case None
      let ?B = "obj_bytes ?m0 obj"
      let ?cp = "cp @ [(obj, free_ptr)]"
      let ?fp = "word_of_nat (free_ptr + 8) :: uintptr"
      from hd None have hv: "mem s obj = ?m0 obj" by simp
      then have obs: "obj_bytes (mem s) obj = ?B" by (simp add: obj_bytes_def)
      from ob(3) have nin: "\<not> in_to s (unat (mem s (unat (mem s a) - 8)))"
        by (simp add: av obj_def [symmetric] hv reg)
      from ob(2) top have "?B < 2 ^ 64" by simp
      then have bb: "obj_bytes (mem s) (unat (mem s a) - 8) < 2 ^ 64"
        by (simp add: av obj_def [symmetric] obs)
      from pt_copy [OF tops ms nin bb, of free_ptr] obtain s' where
        pt: "process_transitive a (s, free_ptr) = (s', free_ptr + ?B)" and st': "same_statics s s'"
        and m': "mem s' = (memcpy free_ptr obj ?B (mem s))(obj := ?fp, a := ?fp)"
        by (auto simp: av obj_def [symmetric] obs)
      from None have nc: "obj \<notin> fst ` set cp" by (simp add: map_of_eq_None_iff)
      have lo': "laid_out ?m0 ?T ?cp (free_ptr + ?B)" using lo by (rule laid_out_snoc)
      have di': "distinct (map fst ?cp)" using di nc by simp
      have sub': "fst ` set ?cp \<subseteq> R" using sub oR by simp
      then have subo': "fst ` set ?cp \<subseteq> set objs" using R by blast
      have fb': "free_ptr + ?B \<le> ?T + ?hb"
        using copied_bound [OF h lo' di' subo'] .
      have Tf: "?T \<le> free_ptr" using lo by (rule laid_out_le)
      have new_to: "in_to s0 x" if "free_ptr \<le> x" "x < free_ptr + ?B" for x
        using that Tf fb' by (simp add: in_to_def)
      have NR: "\<not> (free_ptr \<le> x \<and> x < free_ptr + ?B)" if "in_to s0 x \<longrightarrow> x < free_ptr" for x
        using that new_to [of x] by auto
      have SRC: "src ?m0 ?cp x = src ?m0 cp x" if "in_to s0 x \<longrightarrow> x < free_ptr" for x
        using NR [OF that] by (intro src_snoc_other) simp
      have FW: "fwd_val s0 ?cp y = fwd_val s0 cp y"
        if "managed s0 y \<longrightarrow> unat y - 8 \<in> fst ` set cp" for y
      proof (cases "managed s0 y")
        case False
        then show ?thesis by (simp add: fwd_val_def)
      next
        case True
        with that have "unat y - 8 \<in> fst ` set cp" by simp
        from map_of_dom [OF this] obtain d where d: "map_of cp (unat y - 8) = Some d" by blast
        from map_of_snoc_Some [OF d] d show ?thesis by (simp add: fwd_val_def)
      qed
      have fa: "fwd_val s0 ?cp v0 = ?fp"
        using mv map_of_snoc_None [OF None, of obj free_ptr] by (simp add: fwd_val_def obj_def)
      have "gc_inv s0 R (s', free_ptr + ?B) ?cp (insert a seen)"
        unfolding gc_inv_def
      proof (intro conjI allI impI ballI)
        show "same_statics s0 (fst (s', free_ptr + ?B))"
          using same_statics_trans [OF st st'] by simp
      next
        show "laid_out ?m0 ?T ?cp (snd (s', free_ptr + ?B))" using lo' by simp
      next
        show "distinct (map fst ?cp)" by (rule di')
      next
        show "fst ` set ?cp \<subseteq> R" by (rule sub')
      next
        fix x assume x: "in_from s0 x"
        with a1 have xa: "x \<noteq> a" by auto
        from x heap_ok_disjoint [OF h, of x] have "\<not> in_to s0 x" by simp
        with new_to [of x] have nr: "\<not> (free_ptr \<le> x \<and> x < free_ptr + ?B)" by auto
        have e: "mem s' x = (if x = obj then ?fp else mem s x)"
          using xa nr by (auto simp: m' memcpy_def)
        show "mem (fst (s', free_ptr + ?B)) x =
            (case map_of ?cp x of Some d \<Rightarrow> word_of_nat (d + 8) | None \<Rightarrow> ?m0 x)"
        proof (cases "map_of cp x")
          case (Some d)
          with None have "x \<noteq> obj" by auto
          with e fr [OF x] Some map_of_snoc_Some [OF Some, of "(obj, free_ptr)"]
          show ?thesis by simp
        next
          case n: None
          with e fr [OF x] map_of_snoc_None [OF n, of obj free_ptr]
          show ?thesis by simp
        qed
      next
        fix x assume "\<not> in_from s0 x \<and> (in_to s0 x \<longrightarrow> x < snd (s', free_ptr + ?B))"
        then have x: "\<not> in_from s0 x" "in_to s0 x \<longrightarrow> x < free_ptr + ?B" by simp_all
        from x(1) ob(5) have xo: "x \<noteq> obj" by auto
        show "mem (fst (s', free_ptr + ?B)) x =
            (if x \<in> insert a seen then fwd_val s0 ?cp (?m0 (src ?m0 ?cp x))
             else ?m0 (src ?m0 ?cp x))"
        proof (cases "x = a")
          case True
          with SRC [OF a2] fa show ?thesis by (simp add: m' v0_def)
        next
          case xa: False
          show ?thesis
          proof (cases "free_ptr \<le> x \<and> x < free_ptr + ?B")
            case True
            then have fx: "free_ptr \<le> x" "x < free_ptr + ?B" by simp_all
            define k where "k = x - free_ptr"
            from fx have k: "k < ?B" "x = free_ptr + k" by (simp_all add: k_def)
            have "map_of cp (obj + k) = None"
            proof (rule ccontr)
              assume "map_of cp (obj + k) \<noteq> None"
              then have i: "obj + k \<in> fst ` set cp" by (simp add: map_of_eq_None_iff)
              with subo have "obj + k \<in> set objs" by blast
              from heap_ok_apart [OF h oo this k(1)] have "k = 0" .
              with i nc show False by simp
            qed
            with fr [OF ob(6) [OF k(1)]] have "mem s (obj + k) = ?m0 (obj + k)" by simp
            with fx xa xo have e: "mem s' x = ?m0 (obj + k)"
              by (simp add: m' memcpy_def k_def)
            from src_new [OF lo fx] have s: "src ?m0 ?cp x = obj + k" by (simp add: k_def)
            have "x \<notin> seen"
            proof
              assume "x \<in> seen"
              with dn [of x] new_to [OF fx] fx show False by simp
            qed
            with xa e s show ?thesis by simp
          next
            case False
            with x(2) have x2: "in_to s0 x \<longrightarrow> x < free_ptr" by auto
            from False xa xo have e: "mem s' x = mem s x" by (auto simp: m' memcpy_def)
            show ?thesis
            proof (cases "x \<in> seen")
              case True
              from dn [OF True] have "fwd_val s0 ?cp (?m0 (src ?m0 cp x)) = fwd_val s0 cp (?m0 (src ?m0 cp x))"
                by (intro FW) simp
              with True e ot [OF x(1) x2] SRC [OF x2] show ?thesis by simp
            next
              case False
              with xa e ot [OF x(1) x2] SRC [OF x2] show ?thesis by simp
            qed
          qed
        qed
      next
        fix x assume "x \<in> insert a seen"
        then show "\<not> in_from s0 x" using a1 dn by auto
      next
        fix x assume "x \<in> insert a seen" "in_to s0 x"
        then have "x < free_ptr" using a2 dn by auto
        then show "x < snd (s', free_ptr + ?B)" by simp
      next
        fix x assume x: "x \<in> insert a seen" and m: "managed s0 (?m0 (src ?m0 ?cp x))"
        from x a2 dn have "in_to s0 x \<longrightarrow> x < free_ptr" by auto
        note s = SRC [OF this]
        show "unat (?m0 (src ?m0 ?cp x)) - 8 \<in> fst ` set ?cp"
        proof (cases "x = a")
          case True
          then show ?thesis using s by (simp add: v0_def [symmetric] obj_def [symmetric])
        next
          case False
          with x have "x \<in> seen" by simp
          from dn [OF this] m s show ?thesis by simp
        qed
      qed
      with pt mv show ?thesis by (auto simp: v0_def obj_def)
    qed
  qed
qed

subsection \<open>Forwarding a list of slots\<close>

lemma gc_inv_log [simp]:
  "gc_inv s0 R (log_print t s, free_ptr) cp seen = gc_inv s0 R (s, free_ptr) cp seen"
  by (simp add: gc_inv_def same_statics_def)

lemma laid_out_unique: "laid_out m c cp e \<Longrightarrow> laid_out m c cp e' \<Longrightarrow> e = e'"
  using laid_out_sum by metis

lemma src_append_outside:
  "laid_out m c ex e \<Longrightarrow> a < c \<or> e \<le> a \<Longrightarrow> src m (cp @ ex) a = src m cp a"
proof (induction cp)
  case Nil
  then show ?case using src_below [of m c ex e a] src_beyond [of m c ex e a] by auto
next
  case (Cons p cp)
  then show ?case by simp
qed

lemma gc_inv_free_bound:
  assumes "heap_ok s0 objs" and "R \<subseteq> set objs" and "gc_inv s0 R sf cp seen"
  shows "to_space s0 \<le> snd sf" "snd sf \<le> to_space s0 + half_bytes s0"
proof -
  from assms(3) have lo: "laid_out (mem s0) (to_space s0) cp (snd sf)"
    and d: "distinct (map fst cp)" and s: "fst ` set cp \<subseteq> R"
    by (simp_all add: gc_inv_def)
  from lo show "to_space s0 \<le> snd sf" by (rule laid_out_le)
  from s assms(2) have "fst ` set cp \<subseteq> set objs" by blast
  from copied_bound [OF assms(1) lo d this] show "snd sf \<le> to_space s0 + half_bytes s0" .
qed

text \<open>A slot that is ready stays ready when more objects are copied.\<close>

lemma slot_ready_mono:
  assumes h: "heap_ok s0 objs" and R: "R \<subseteq> set objs"
    and r: "slot_ready s0 R cp free_ptr a"
    and i: "gc_inv s0 R (s, free_ptr) cp seen" and i': "gc_inv s0 R sf' (cp @ ex) seen'"
  shows "slot_ready s0 R (cp @ ex) (snd sf') a"
proof -
  from i have lo: "laid_out (mem s0) (to_space s0) cp free_ptr" by (simp add: gc_inv_def)
  from i' have "laid_out (mem s0) (to_space s0) (cp @ ex) (snd sf')" by (simp add: gc_inv_def)
  then obtain d where "laid_out (mem s0) (to_space s0) cp d" and le: "laid_out (mem s0) d ex (snd sf')"
    by (auto simp: laid_out_append)
  with lo have lx: "laid_out (mem s0) free_ptr ex (snd sf')"
    using laid_out_unique by blast
  from laid_out_le [OF lx] have fl: "free_ptr \<le> snd sf'" .
  note b = gc_inv_free_bound [OF h R i']
  note b0 = gc_inv_free_bound [OF h R i]
  from r have a: "\<not> in_from s0 a" "in_to s0 a \<longrightarrow> a < free_ptr" "a \<notin> snd ` set cp"
    and t: "managed s0 (mem s0 (src (mem s0) cp a)) \<longrightarrow> unat (mem s0 (src (mem s0) cp a)) - 8 \<in> R"
    by (simp_all add: slot_ready_def)
  have o: "a < free_ptr \<or> snd sf' \<le> a"
    using a(2) b b0 by (auto simp: in_to_def)
  from src_append_outside [OF lx o] have s: "src (mem s0) (cp @ ex) a = src (mem s0) cp a" .
  have "a \<notin> snd ` set ex"
  proof
    assume "a \<in> snd ` set ex"
    then obtain obj where "(obj, a) \<in> set ex" by force
    from laid_out_mem [OF lx this] o obj_bytes_pos [of "mem s0" obj] show False by simp
  qed
  with a t s fl show ?thesis by (auto simp: slot_ready_def)
qed

lemma forward_fold_inv:
  assumes h: "heap_ok s0 objs" and R: "R \<subseteq> set objs"
    and step: "\<And>x sf. \<exists>t. f x sf = process_transitive (g x) (log_print t (fst sf), snd sf)"
  shows "gc_inv s0 R sf cp seen \<Longrightarrow> heads_clear cp seen
     \<Longrightarrow> \<forall>x \<in> set xs. slot_ready s0 R cp (snd sf) (g x)
     \<Longrightarrow> \<exists>ex. gc_inv s0 R (fold f xs sf) (cp @ ex) (seen \<union> g ` set xs)
            \<and> heads_clear (cp @ ex) (seen \<union> g ` set xs)"
proof (induction xs arbitrary: sf cp seen)
  case Nil
  then show ?case by (intro exI [of _ "[]"]) simp
next
  case (Cons x xs)
  obtain s free_ptr where sf: "sf = (s, free_ptr)" by (cases sf)
  from step [of x sf] obtain t where f: "f x sf = process_transitive (g x) (log_print t s, free_ptr)"
    unfolding sf by auto
  from Cons.prems(3) have rx: "slot_ready s0 R cp free_ptr (g x)" by (simp add: sf)
  from Cons.prems(1) have i: "gc_inv s0 R (log_print t s, free_ptr) cp seen" by (simp add: sf)
  from rx have "\<not> in_from s0 (g x)" "in_to s0 (g x) \<longrightarrow> g x < free_ptr"
    "managed s0 (mem s0 (src (mem s0) cp (g x))) \<longrightarrow> unat (mem s0 (src (mem s0) cp (g x))) - 8 \<in> R"
    by (simp_all add: slot_ready_def)
  from forward_inv [OF h R i this] obtain cp1 where
    i1: "gc_inv s0 R (f x sf) cp1 (insert (g x) seen)"
    and c1: "cp1 = cp \<or> cp1 = cp @ [(unat (mem s0 (src (mem s0) cp (g x))) - 8, free_ptr)]"
    by (auto simp: f)
  from c1 obtain e1 where e1: "cp1 = cp @ e1" and e1': "snd ` set e1 \<subseteq> {free_ptr}" by auto
  have hc1: "heads_clear cp1 (insert (g x) seen)"
    unfolding heads_clear_def
  proof
    fix p assume p: "p \<in> set cp1"
    from i have dn: "\<forall>a \<in> seen. in_to s0 a \<longrightarrow> a < free_ptr" by (simp add: gc_inv_def)
    from gc_inv_free_bound [OF h R i] have fb: "in_to s0 free_ptr \<or> free_ptr = to_space s0 + half_bytes s0"
      by (auto simp: in_to_def)
    show "snd p \<notin> insert (g x) seen"
    proof (cases "p \<in> set cp")
      case True
      then have "snd p \<in> snd ` set cp" by (rule imageI)
      moreover from rx have "g x \<notin> snd ` set cp" by (simp add: slot_ready_def)
      ultimately have "snd p \<noteq> g x" by metis
      moreover from True Cons.prems(2) have "snd p \<notin> seen" by (simp add: heads_clear_def)
      ultimately show ?thesis by simp
    next
      case False
      with p e1 e1' have sp: "snd p = free_ptr" by auto
      from False p e1 c1 have ne: "cp1 \<noteq> cp" by auto
      have "in_to s0 free_ptr"
      proof -
        from ne c1 have "(unat (mem s0 (src (mem s0) cp (g x))) - 8, free_ptr) \<in> set cp1" by auto
        from laid_out_mem [OF _ this, of "mem s0" "to_space s0" "snd (f x sf)"] i1
          gc_inv_free_bound [OF h R i1] obj_bytes_pos [of "mem s0" "unat (mem s0 (src (mem s0) cp (g x))) - 8"]
        show ?thesis by (simp add: gc_inv_def in_to_def)
      qed
      with dn rx sp show ?thesis by (auto simp: slot_ready_def)
    qed
  qed
  have "\<forall>y \<in> set xs. slot_ready s0 R cp1 (snd (f x sf)) (g y)"
  proof
    fix y assume "y \<in> set xs"
    with Cons.prems(3) have "slot_ready s0 R cp free_ptr (g y)" by (simp add: sf)
    from slot_ready_mono [OF h R this i] i1 e1 show "slot_ready s0 R cp1 (snd (f x sf)) (g y)"
      by simp
  qed
  from Cons.IH [OF i1 hc1 this] obtain ex where
    "gc_inv s0 R (fold f xs (f x sf)) (cp1 @ ex) (insert (g x) seen \<union> g ` set xs)"
    "heads_clear (cp1 @ ex) (insert (g x) seen \<union> g ` set xs)"
    by blast
  then show ?case by (intro exI [of _ "e1 @ ex"]) (simp add: e1)
qed

subsection \<open>The walk over the stack\<close>

lemma walk_stack_unfold:
  "walk_stack idx frame (s, free_ptr) =
     (if base_frame_ptr s \<le> frame then Some (s, free_ptr)
      else
        (let R = mem s (psub frame 1);
             sf = fold (root_step frame) [0 ..< unat R] (log_print (msg_frame idx R) s, free_ptr)
         in walk_stack (idx + 1) (unat (mem (fst sf) frame)) sf))"
proof (cases "base_frame_ptr s \<le> frame")
  case True
  then show ?thesis by (subst walk_stack.simps) simp
next
  case False
  define R where "R = mem s (psub frame 1)"
  define s1 where "s1 = log_print (msg_frame idx R) s"
  define sf where "sf = fold (root_step frame) [0 ..< unat R] (s1, free_ptr)"
  have "same_statics (fst (s1, free_ptr)) (fst sf)"
    unfolding sf_def by (rule same_statics_fold) (rule same_statics_root_step)
  then have b: "base_frame_ptr (fst sf) = base_frame_ptr s"
    by (simp add: same_statics_def s1_def)
  have "walk_stack idx frame (s, free_ptr) = walk_stack (idx + 1) (unat (mem (fst sf) frame)) sf"
    using False b unfolding sf_def s1_def R_def
    by (subst walk_stack.simps) (simp add: Let_def root_loop_fold)
  then show ?thesis using False unfolding sf_def s1_def R_def
    by (simp add: Let_def)
qed

lemma src_off_to:
  assumes h: "heap_ok s0 objs" and R: "R \<subseteq> set objs" and i: "gc_inv s0 R sf cp seen"
    and a: "\<not> in_to s0 a"
  shows "src (mem s0) cp a = a"
proof -
  from i have lo: "laid_out (mem s0) (to_space s0) cp (snd sf)" by (simp add: gc_inv_def)
  from gc_inv_free_bound [OF h R i] a have "a < to_space s0 \<or> snd sf \<le> a"
    by (auto simp: in_to_def)
  then show ?thesis using src_below [OF lo] src_beyond [OF lo] by auto
qed

lemma heads_in_to:
  assumes h: "heap_ok s0 objs" and R: "R \<subseteq> set objs" and i: "gc_inv s0 R sf cp seen"
    and p: "p \<in> set cp"
  shows "in_to s0 (snd p)"
proof -
  from i have lo: "laid_out (mem s0) (to_space s0) cp (snd sf)" by (simp add: gc_inv_def)
  from p have "(fst p, snd p) \<in> set cp" by simp
  from laid_out_mem [OF lo this] gc_inv_free_bound(2) [OF h R i] obj_bytes_pos [of "mem s0" "fst p"]
  show ?thesis by (simp add: in_to_def)
qed

lemma off_heap_read:
  assumes h: "heap_ok s0 objs" and R: "R \<subseteq> set objs" and i: "gc_inv s0 R sf cp seen"
    and a: "off_heap s0 a" and n: "a \<notin> seen"
  shows "mem (fst sf) a = mem s0 a"
proof -
  from a have a': "\<not> in_from s0 a" "\<not> in_to s0 a" by (simp_all add: off_heap_def)
  from i a' n have "mem (fst sf) a = mem s0 (src (mem s0) cp a)"
    by (simp add: gc_inv_def)
  with src_off_to [OF h R i a'(2)] show ?thesis by simp
qed

lemma walk_inv:
  assumes h: "heap_ok s0 objs" and R: "R \<subseteq> set objs"
  shows "frame_chain (mem s0) (base_frame_ptr s0) frame fs \<Longrightarrow> list_all (frame_ok s0) fs
     \<Longrightarrow> \<forall>a \<in> set (root_slots (mem s0) fs). managed s0 (mem s0 a) \<longrightarrow> unat (mem s0 a) - 8 \<in> R
     \<Longrightarrow> gc_inv s0 R (s, free_ptr) cp seen \<Longrightarrow> heads_clear cp seen
     \<Longrightarrow> \<forall>x \<in> seen. off_heap s0 x \<and> x + 8 < frame
     \<Longrightarrow> \<exists>sf' cp'. walk_stack idx frame (s, free_ptr) = Some sf'
           \<and> gc_inv s0 R sf' cp' (seen \<union> set (root_slots (mem s0) fs))
           \<and> heads_clear cp' (seen \<union> set (root_slots (mem s0) fs))
           \<and> (\<forall>x \<in> seen \<union> set (root_slots (mem s0) fs). off_heap s0 x)"
proof (induction fs arbitrary: frame s free_ptr cp seen idx)
  case Nil
  from Nil.prems(4) have "base_frame_ptr s = base_frame_ptr s0"
    by (simp add: gc_inv_def same_statics_def)
  with Nil.prems(1) have "walk_stack idx frame (s, free_ptr) = Some (s, free_ptr)"
    by (subst walk_stack_unfold) simp
  with Nil.prems show ?case by (auto simp: root_slots_def)
next
  case (Cons f fs)
  let ?m0 = "mem s0"
  from Cons.prems(1) have ff: "f = frame" and fb: "frame < base_frame_ptr s0"
    and up: "frame < unat (?m0 frame)"
    and ch: "frame_chain ?m0 (base_frame_ptr s0) (unat (?m0 frame)) fs"
    by auto
  from Cons.prems(2) have fo: "frame_ok s0 frame" and fos: "list_all (frame_ok s0) fs"
    by (simp_all add: ff)
  from fo have big: "8 * (unat (?m0 (psub frame 1)) + 1) \<le> frame"
    and oh: "off_heap s0 frame" "off_heap s0 (psub frame 1)"
    and ohs: "\<forall>a \<in> set (frame_slots ?m0 frame). off_heap s0 a"
    by (simp_all add: frame_ok_def list_all_iff)
  note i = Cons.prems(4)
  from i have bs: "base_frame_ptr s = base_frame_ptr s0"
    by (simp add: gc_inv_def same_statics_def)
  \<comment> \<open>the root count is still the one of the initial memory\<close>
  have "psub frame 1 \<notin> seen"
    using Cons.prems(6) big by (auto simp: psub_bytes)
  from off_heap_read [OF h R i oh(2) this] have cnt: "mem s (psub frame 1) = ?m0 (psub frame 1)"
    by simp
  define n where "n = unat (?m0 (psub frame 1))"
  define g where "g = (\<lambda>i. psub (psub frame 2) i)"
  have slots: "frame_slots ?m0 frame = map g [0 ..< n]"
    by (simp add: frame_slots_def g_def n_def)
  define sf1 where "sf1 = (log_print (msg_frame idx (?m0 (psub frame 1))) s, free_ptr)"
  define sf2 where "sf2 = fold (root_step frame) [0 ..< n] sf1"
  have i1: "gc_inv s0 R sf1 cp seen" using i by (simp add: sf1_def)
  have ready: "\<forall>x \<in> set [0 ..< n]. slot_ready s0 R cp (snd sf1) (g x)"
  proof
    fix x assume "x \<in> set [0 ..< n]"
    then have gx: "g x \<in> set (frame_slots ?m0 frame)" by (simp add: slots)
    with ohs have o: "off_heap s0 (g x)" by simp
    then have nt: "\<not> in_to s0 (g x)" "\<not> in_from s0 (g x)" by (simp_all add: off_heap_def)
    from gx have "g x \<in> set (root_slots ?m0 (f # fs))" by (simp add: root_slots_def ff)
    with Cons.prems(3) have t: "managed s0 (?m0 (g x)) \<longrightarrow> unat (?m0 (g x)) - 8 \<in> R" by blast
    have "g x \<notin> snd ` set cp"
    proof
      assume "g x \<in> snd ` set cp"
      then obtain p where p: "p \<in> set cp" "snd p = g x" by auto
      from heads_in_to [OF h R i p(1)] p(2) nt show False by simp
    qed
    with nt t src_off_to [OF h R i nt(1)] show "slot_ready s0 R cp (snd sf1) (g x)"
      by (simp add: slot_ready_def)
  qed
  have step: "\<exists>t. root_step frame x sf = process_transitive (g x) (log_print t (fst sf), snd sf)"
    for x sf by (auto simp: root_step_def g_def)
  from forward_fold_inv [of s0 objs R "root_step frame" g, OF h R step i1 Cons.prems(5) ready]
  obtain ex where i2: "gc_inv s0 R sf2 (cp @ ex) (seen \<union> g ` set [0 ..< n])"
    and hc2: "heads_clear (cp @ ex) (seen \<union> g ` set [0 ..< n])"
    unfolding sf2_def by blast
  have gs: "g ` set [0 ..< n] = set (frame_slots ?m0 frame)" by (simp add: slots)
  have below: "a + 16 \<le> frame" if "a \<in> set (frame_slots ?m0 frame)" for a
  proof -
    from that obtain k where "k < n" "a = g k" by (auto simp: slots)
    with big show ?thesis by (simp add: g_def psub_bytes n_def)
  qed
  \<comment> \<open>the link to the caller's frame is still the one of the initial memory\<close>
  have "frame \<notin> seen" using Cons.prems(6) by auto
  moreover have "frame \<notin> set (frame_slots ?m0 frame)" using below [of frame] by auto
  ultimately have "frame \<notin> seen \<union> g ` set [0 ..< n]"
    unfolding gs by simp
  from off_heap_read [OF h R i2 oh(1) this] have lk: "mem (fst sf2) frame = ?m0 frame" .
  have nb: "\<not> base_frame_ptr s \<le> frame" using fb bs by simp
  have "walk_stack idx frame (s, free_ptr)
          = walk_stack (idx + 1) (unat (mem (fst sf2) frame)) sf2"
    unfolding sf2_def sf1_def n_def
    by (subst walk_stack_unfold) (simp only: nb if_False Let_def cnt)
  then have w: "walk_stack idx frame (s, free_ptr) = walk_stack (idx + 1) (unat (?m0 frame)) sf2"
    by (simp only: lk)
  have seen': "\<forall>x \<in> seen \<union> g ` set [0 ..< n]. off_heap s0 x \<and> x + 8 < unat (?m0 frame)"
  proof
    fix x assume "x \<in> seen \<union> g ` set [0 ..< n]"
    then have "x \<in> seen \<or> x \<in> set (frame_slots ?m0 frame)" unfolding gs by simp
    then show "off_heap s0 x \<and> x + 8 < unat (?m0 frame)"
    proof
      assume "x \<in> seen"
      with Cons.prems(6) up show ?thesis by force
    next
      assume x: "x \<in> set (frame_slots ?m0 frame)"
      with ohs have "off_heap s0 x" by simp
      with below [OF x] up show ?thesis by simp
    qed
  qed
  have rr: "\<forall>a \<in> set (root_slots ?m0 fs). managed s0 (?m0 a) \<longrightarrow> unat (?m0 a) - 8 \<in> R"
    using Cons.prems(3) by (simp add: root_slots_def)
  obtain s2 f2 where sf2: "sf2 = (s2, f2)" by (cases sf2)
  from Cons.IH [OF ch fos rr i2 [unfolded sf2] hc2 seen', of "idx + 1"]
  obtain sf' cp' where "walk_stack (idx + 1) (unat (?m0 frame)) sf2 = Some sf'"
    "gc_inv s0 R sf' cp' (seen \<union> g ` set [0 ..< n] \<union> set (root_slots ?m0 fs))"
    "heads_clear cp' (seen \<union> g ` set [0 ..< n] \<union> set (root_slots ?m0 fs))"
    "\<forall>x \<in> seen \<union> g ` set [0 ..< n] \<union> set (root_slots ?m0 fs). off_heap s0 x"
    unfolding sf2 by blast
  moreover have "seen \<union> g ` set [0 ..< n] \<union> set (root_slots ?m0 fs)
      = seen \<union> set (root_slots ?m0 (f # fs))"
    unfolding gs by (simp add: root_slots_def ff Un_assoc)
  ultimately show ?case using w by auto
qed

subsection \<open>The scan loop\<close>

lemma log_print_nothing [simp]: "log_print [] s = s"
  by (simp add: log_print_def print_def)

lemma laid_out_same_end: "laid_out m c cp c \<Longrightarrow> cp = []"
proof (cases cp)
  case Nil
  then show ?thesis by simp
next
  case (Cons p ps)
  assume "laid_out m c cp c"
  with Cons have "laid_out m (c + obj_bytes m (fst p)) ps c" by simp
  from laid_out_le [OF this] obj_bytes_pos [of m "fst p"] show ?thesis by simp
qed

lemma scan_ok_bounds:
  assumes h: "heap_ok s0 objs" and R: "R \<subseteq> set objs" and ok: "scan_ok s0 R D c"
  shows "to_space s0 \<le> fst c" "fst c \<le> snd (snd c)" "snd (snd c) \<le> to_space s0 + half_bytes s0"
proof -
  from ok obtain cp1 cp2 seen where i: "gc_inv s0 R (snd c) (cp1 @ cp2) seen"
    and l1: "laid_out (mem s0) (to_space s0) cp1 (fst c)"
    by (auto simp: scan_ok_def)
  from i have "laid_out (mem s0) (to_space s0) (cp1 @ cp2) (snd (snd c))" by (simp add: gc_inv_def)
  then obtain d where "laid_out (mem s0) (to_space s0) cp1 d" "laid_out (mem s0) d cp2 (snd (snd c))"
    by (auto simp: laid_out_append)
  with l1 have "laid_out (mem s0) (fst c) cp2 (snd (snd c))" using laid_out_unique by blast
  then show "fst c \<le> snd (snd c)" by (rule laid_out_le)
  from l1 show "to_space s0 \<le> fst c" by (rule laid_out_le)
  from gc_inv_free_bound(2) [OF h R i] show "snd (snd c) \<le> to_space s0 + half_bytes s0" .
qed

lemma scan_ok_step:
  assumes h: "heap_ok s0 objs" and R: "R \<subseteq> set objs" and cl: "fields_closed s0 R"
    and ok: "scan_ok s0 R D c" and lt: "fst c < snd (snd c)"
  shows "scan_ok s0 R D (scan_step c)"
    and "fst (scan_step c) = fst c + obj_bytes (mem (fst (snd c))) (fst c)"
proof -
  let ?m0 = "mem s0"
  let ?T = "to_space s0"
  obtain scan s free_ptr where c: "c = (scan, s, free_ptr)" by (cases c)
  from ok obtain cp1 cp2 seen where i: "gc_inv s0 R (s, free_ptr) (cp1 @ cp2) seen"
    and hc: "heads_clear (cp1 @ cp2) seen"
    and l1: "laid_out ?m0 ?T cp1 scan"
    and fd: "\<forall>p \<in> set cp1. \<forall>j \<in> set (ptr_offsets (?m0 (fst p))). snd p + 8 + 8 * j \<in> seen"
    and D: "D \<subseteq> seen"
    by (auto simp: scan_ok_def c)
  let ?cp = "cp1 @ cp2"
  from i have lo: "laid_out ?m0 ?T ?cp free_ptr" by (simp add: gc_inv_def)
  then obtain d where "laid_out ?m0 ?T cp1 d" "laid_out ?m0 d cp2 free_ptr"
    by (auto simp: laid_out_append)
  with l1 have l2: "laid_out ?m0 scan cp2 free_ptr" using laid_out_unique by blast
  from lt have sl: "scan < free_ptr" by (simp add: c)
  with l2 obtain p cp2' where cp2: "cp2 = p # cp2'" by (cases cp2) auto
  define obj where "obj = fst p"
  let ?B = "obj_bytes ?m0 obj"
  from l2 cp2 have ps: "snd p = scan" and l3: "laid_out ?m0 (scan + ?B) cp2' free_ptr"
    by (simp_all add: obj_def)
  have pin: "(obj, scan) \<in> set ?cp" using cp2 ps by (simp add: obj_def flip: ps)
  from i have sub: "fst ` set ?cp \<subseteq> R" by (simp add: gc_inv_def)
  with pin have oR: "obj \<in> R" by force
  with R have oo: "obj \<in> set objs" by blast
  note ob = heap_ok_obj [OF h oo]
  note fbd = gc_inv_free_bound [OF h R i]
  from laid_out_le [OF l1] have Ts: "?T \<le> scan" .
  from laid_out_le [OF l3] have sB: "scan + ?B \<le> free_ptr" .
  have into: "in_to s0 (scan + k)" if "k < ?B" for k
    using that Ts sB fbd by (simp add: in_to_def)
  have nfrom: "\<not> in_from s0 (scan + k)" if "k < ?B" for k
    using into [OF that] heap_ok_disjoint [OF h] by blast
  have srck: "src ?m0 ?cp (scan + k) = obj + k" if "k < ?B" for k
    using src_copy [OF lo pin that] .
  \<comment> \<open>the header read at the scan cursor is the header of the source object\<close>
  have "scan \<notin> seen" using hc pin by (force simp: heads_clear_def)
  moreover have "0 < ?B" using ob(4) by simp
  ultimately have hd: "mem s scan = ?m0 obj"
    using i nfrom [of 0] into [of 0] srck [of 0] sl by (simp add: gc_inv_def)
  then have obs: "obj_bytes (mem s) scan = ?B" by (simp add: obj_bytes_def)
  from ob(2) h have "?B < 2 ^ 64" by (simp add: heap_ok_def)
  from unat_copy_size(1) [OF this] have u: "unat (1 + get_payload_words (?m0 obj))
      = 1 + unat (get_payload_words (?m0 obj))" .
  have adv: "padd scan (unat (1 + get_payload_words (?m0 obj))) = scan + ?B"
    by (simp add: u padd_bytes obj_bytes_def WORDSIZE_def)
  define g where "g = (\<lambda>j. padd (padd scan 1) j)"
  define offs where "offs = ptr_offsets (?m0 obj)"
  define sf where "sf = fold (\<lambda>j. process_transitive (g j)) offs (log_print (msg_scanning (?m0 obj)) s, free_ptr)"
  have ss: "scan_step c = (scan + ?B,
      log_print (msg_incrementing (1 + get_payload_words (?m0 obj))) (fst sf), snd sf)"
    unfolding c scan_step_eq by (simp only: Let_def hd adv sf_def g_def offs_def)
  have gk: "g j = scan + (8 + 8 * j)" for j by (simp add: g_def padd_bytes)
  have kb: "8 + 8 * j < ?B" if "j \<in> set offs" for j
    using ptr_offsets_bound [of j "?m0 obj"] that
    by (simp add: offs_def obj_bytes_def WORDSIZE_def)
  have ready: "\<forall>j \<in> set offs. slot_ready s0 R ?cp (snd (log_print (msg_scanning (?m0 obj)) s, free_ptr)) (g j)"
  proof
    fix j assume j: "j \<in> set offs"
    note k = kb [OF j]
    have t: "managed s0 (?m0 (obj + (8 + 8 * j))) \<longrightarrow> unat (?m0 (obj + (8 + 8 * j))) - 8 \<in> R"
      using cl oR j by (simp add: fields_closed_def offs_def add.assoc)
    have "g j \<notin> snd ` set ?cp"
    proof
      assume "g j \<in> snd ` set ?cp"
      then obtain q where q: "q \<in> set ?cp" "snd q = g j" by (metis imageE)
      then have qi: "(fst q, g j) \<in> set ?cp" by (simp flip: q(2))
      from q(1) sub R have qo: "fst q \<in> set objs" by blast
      from heap_ok_obj(4) [OF h qo] have "0 < obj_bytes ?m0 (fst q)" by simp
      from src_copy [OF lo qi this] srck [OF k] have "fst q = obj + (8 + 8 * j)" by (simp add: gk)
      with heap_ok_apart [OF h oo _ k] qo show False by simp
    qed
    with nfrom [OF k] into [OF k] sB k srck [OF k] t
    show "slot_ready s0 R ?cp (snd (log_print (msg_scanning (?m0 obj)) s, free_ptr)) (g j)"
      by (simp add: slot_ready_def gk)
  qed
  have step: "\<exists>t. process_transitive (g x) sf = process_transitive (g x) (log_print t (fst sf), snd sf)"
    for x sf by (rule exI [of _ "[]"]) simp
  have i0: "gc_inv s0 R (log_print (msg_scanning (?m0 obj)) s, free_ptr) ?cp seen"
    using i by simp
  from forward_fold_inv [of s0 objs R "\<lambda>j. process_transitive (g j)" g, OF h R step i0 hc ready]
  obtain ex where i2: "gc_inv s0 R sf (?cp @ ex) (seen \<union> g ` set offs)"
    and hc2: "heads_clear (?cp @ ex) (seen \<union> g ` set offs)"
    unfolding sf_def by blast
  have "scan_ok s0 R D (scan + ?B,
      log_print (msg_incrementing (1 + get_payload_words (?m0 obj))) (fst sf), snd sf)"
    unfolding scan_ok_def
  proof (rule exI [of _ "cp1 @ [p]"], rule exI [of _ "cp2' @ ex"],
      rule exI [of _ "seen \<union> g ` set offs"], intro conjI)
    have e: "(cp1 @ [p]) @ cp2' @ ex = ?cp @ ex" by (simp add: cp2)
    obtain s2 f2 where sf2: "sf = (s2, f2)" by (cases sf)
    show "gc_inv s0 R (snd (scan + ?B, log_print (msg_incrementing (1 + get_payload_words (?m0 obj))) (fst sf), snd sf))
        ((cp1 @ [p]) @ cp2' @ ex) (seen \<union> g ` set offs)"
      unfolding e using i2 by (simp add: sf2)
    show "heads_clear ((cp1 @ [p]) @ cp2' @ ex) (seen \<union> g ` set offs)"
      unfolding e by (rule hc2)
    have "p = (obj, scan)" using ps by (simp add: obj_def flip: ps)
    with laid_out_snoc [OF l1, of obj]
    show "laid_out ?m0 ?T (cp1 @ [p]) (fst (scan + ?B,
        log_print (msg_incrementing (1 + get_payload_words (?m0 obj))) (fst sf), snd sf))"
      by simp
    show "\<forall>q \<in> set (cp1 @ [p]). \<forall>j \<in> set (ptr_offsets (?m0 (fst q))). snd q + 8 + 8 * j \<in> seen \<union> g ` set offs"
    proof (intro ballI)
      fix q j assume q: "q \<in> set (cp1 @ [p])" and j: "j \<in> set (ptr_offsets (?m0 (fst q)))"
      show "snd q + 8 + 8 * j \<in> seen \<union> g ` set offs"
      proof (cases "q = p")
        case True
        with j have "j \<in> set offs" by (simp add: offs_def obj_def)
        then have "g j \<in> g ` set offs" by (rule imageI)
        with True ps show ?thesis by (simp add: gk add.assoc)
      next
        case False
        with q fd j show ?thesis by auto
      qed
    qed
    show "D \<subseteq> seen \<union> g ` set offs" using D by blast
  qed
  with ss show "scan_ok s0 R D (scan_step c)" by simp
  from ss show "fst (scan_step c) = fst c + obj_bytes (mem (fst (snd c))) (fst c)"
    by (simp add: c obs)
qed

lemma scan_terminates:
  assumes h: "heap_ok s0 objs" and R: "R \<subseteq> set objs" and cl: "fields_closed s0 R"
  shows "scan_ok s0 R D c \<Longrightarrow> \<exists>c'. scan_loop c = Some c' \<and> scan_ok s0 R D c' \<and> fst c' = snd (snd c')"
proof (induction "to_space s0 + half_bytes s0 - fst c" arbitrary: c rule: less_induct)
  case less
  note b = scan_ok_bounds [OF h R less.prems]
  show ?case
  proof (cases "fst c < snd (snd c)")
    case True
    note st = scan_ok_step [OF h R cl less.prems True]
    note b' = scan_ok_bounds [OF h R st(1)]
    have "fst c < fst (scan_step c)"
      using st(2) obj_bytes_pos [of "mem (fst (snd c))" "fst c"] by simp
    with b' have "to_space s0 + half_bytes s0 - fst (scan_step c) < to_space s0 + half_bytes s0 - fst c"
      by simp
    from less.hyps [OF this st(1)] True show ?thesis
      by (subst scan_loop.simps) simp
  next
    case False
    with b less.prems show ?thesis
      by (subst scan_loop.simps) simp
  qed
qed

subsection \<open>Reachable objects and the phases of a collection\<close>

lemma reach_objs:
  assumes "wf_heap s top_frame fs objs"
  shows "reach s (root_slots (mem s) fs) \<subseteq> set objs"
proof
  fix x assume "x \<in> reach s (root_slots (mem s) fs)"
  then show "x \<in> set objs"
  proof (induction rule: reach.induct)
    case (root a)
    with assms show ?case by (auto simp: wf_heap_def list_all_iff ptr_ok_def)
  next
    case (field obj j)
    with assms show ?case by (auto simp: wf_heap_def list_all_iff ptr_ok_def)
  qed
qed

lemma reach_closed: "fields_closed s (reach s roots)"
  by (auto simp: fields_closed_def intro: reach.field)

lemma gc_inv_start: "gc_inv s R (s, to_space s) [] {}"
  by (simp add: gc_inv_def)

lemma obj_bytes_dvd: "8 dvd sum_list (map (obj_bytes m) xs)"
  by (induction xs) (simp_all add: obj_bytes_def WORDSIZE_def)

text \<open>The two phases of a collection on a well-formed state.\<close>

lemma collect_phases:
  assumes wf: "wf_heap s top_frame fs objs"
  shows "\<exists>sf1 c cp seen.
     walk_stack 0 top_frame (s, to_space s) = Some sf1
     \<and> scan_ok s (reach s (root_slots (mem s) fs)) (set (root_slots (mem s) fs))
          (to_space s, log_print msg_starting_scan (fst sf1), snd sf1)
     \<and> scan_loop (to_space s, log_print msg_starting_scan (fst sf1), snd sf1) = Some c
     \<and> fst c = snd (snd c)
     \<and> gc_inv s (reach s (root_slots (mem s) fs)) (snd c) cp seen
     \<and> heads_clear cp seen
     \<and> set (root_slots (mem s) fs) \<subseteq> seen
     \<and> (\<forall>p \<in> set cp. \<forall>j \<in> set (ptr_offsets (mem s (fst p))). snd p + 8 + 8 * j \<in> seen)"
proof -
  let ?roots = "root_slots (mem s) fs"
  let ?R = "reach s ?roots"
  from wf have h: "heap_ok s objs"
    and ch: "frame_chain (mem s) (base_frame_ptr s) top_frame fs"
    and fo: "list_all (frame_ok s) fs"
    by (simp_all add: wf_heap_def)
  note R = reach_objs [OF wf]
  have rr: "\<forall>a \<in> set ?roots. managed s (mem s a) \<longrightarrow> unat (mem s a) - 8 \<in> ?R"
    by (auto intro: reach.root)
  from walk_inv [OF h R ch fo rr gc_inv_start, of 0]
  obtain sf1 cp1 where w: "walk_stack 0 top_frame (s, to_space s) = Some sf1"
    and i1: "gc_inv s ?R sf1 cp1 (set ?roots)"
    and hc1: "heads_clear cp1 (set ?roots)"
    by (auto simp: heads_clear_def)
  obtain s1 f1 where sf1: "sf1 = (s1, f1)" by (cases sf1)
  let ?c0 = "(to_space s, log_print msg_starting_scan (fst sf1), snd sf1)"
  have ok0: "scan_ok s ?R (set ?roots) ?c0"
    unfolding scan_ok_def
    by (rule exI [of _ "[]"], rule exI [of _ cp1], rule exI [of _ "set ?roots"])
       (use i1 hc1 in \<open>simp add: sf1\<close>)
  from scan_terminates [OF h R reach_closed ok0]
  obtain c where sl: "scan_loop ?c0 = Some c" and okc: "scan_ok s ?R (set ?roots) c"
    and e: "fst c = snd (snd c)" by blast
  from okc obtain cpa cpb seen where i: "gc_inv s ?R (snd c) (cpa @ cpb) seen"
    and hc: "heads_clear (cpa @ cpb) seen"
    and la: "laid_out (mem s) (to_space s) cpa (fst c)"
    and fd: "\<forall>p \<in> set cpa. \<forall>j \<in> set (ptr_offsets (mem s (fst p))). snd p + 8 + 8 * j \<in> seen"
    and D: "set ?roots \<subseteq> seen"
    by (auto simp: scan_ok_def)
  from i have "laid_out (mem s) (to_space s) (cpa @ cpb) (snd (snd c))" by (simp add: gc_inv_def)
  then obtain d where "laid_out (mem s) (to_space s) cpa d" "laid_out (mem s) d cpb (snd (snd c))"
    by (auto simp: laid_out_append)
  with la e have "laid_out (mem s) (fst c) cpb (fst c)" using laid_out_unique by metis
  then have "cpb = []" by (rule laid_out_same_end)
  with i hc have i': "gc_inv s ?R (snd c) cpa seen" and hc': "heads_clear cpa seen" by simp_all
  show ?thesis
    by (rule exI [of _ sf1], rule exI [of _ c], rule exI [of _ cpa], rule exI [of _ seen])
       (use w ok0 sl e i' hc' D fd in blast)
qed

subsection \<open>A collection as a whole\<close>

lemma roots_off_heap:
  assumes "wf_heap s top_frame fs objs" and "a \<in> set (root_slots (mem s) fs)"
  shows "off_heap s a"
  using assms by (auto simp: wf_heap_def root_slots_def frame_ok_def list_all_iff)

lemma gc_collect_correct:
  assumes wf: "wf_heap s top_frame fs objs"
  shows "\<exists>s' sf1 c cp.
     walk_stack 0 top_frame (s, to_space s) = Some sf1
     \<and> scan_loop (to_space s, log_print msg_starting_scan (fst sf1), snd sf1) = Some c
     \<and> gc_collect top_frame s = Some s'
     \<and> from_space s' = to_space s \<and> to_space s' = from_space s
     \<and> heap_size s' = heap_size s \<and> base_frame_ptr s' = base_frame_ptr s
     \<and> bump_ptr s' = padd (from_space s') (pdiff (snd (snd c)) (to_space s))
     \<and> bump_ptr s' = snd (snd c)
     \<and> laid_out (mem s) (to_space s) cp (bump_ptr s')
     \<and> distinct (map fst cp)
     \<and> fst ` set cp = reach s (root_slots (mem s) fs)
     \<and> (\<forall>p \<in> set cp. mem s' (snd p) = mem s (fst p))
     \<and> (\<forall>a \<in> set (root_slots (mem s) fs). mem s' a = fwd_val s cp (mem s a))
     \<and> (\<forall>p \<in> set cp. \<forall>j \<in> set (ptr_offsets (mem s (fst p))).
           mem s' (snd p + 8 + 8 * j) = fwd_val s cp (mem s (fst p + 8 + 8 * j)))"
proof -
  let ?m0 = "mem s"
  let ?T = "to_space s"
  let ?roots = "root_slots ?m0 fs"
  let ?R = "reach s ?roots"
  from wf have h: "heap_ok s objs" by (simp add: wf_heap_def)
  note R = reach_objs [OF wf]
  from collect_phases [OF wf] obtain sf1 c cp seen where
    w: "walk_stack 0 top_frame (s, ?T) = Some sf1"
    and sl: "scan_loop (?T, log_print msg_starting_scan (fst sf1), snd sf1) = Some c"
    and e: "fst c = snd (snd c)"
    and i: "gc_inv s ?R (snd c) cp seen"
    and hc: "heads_clear cp seen"
    and D: "set ?roots \<subseteq> seen"
    and fd: "\<forall>p \<in> set cp. \<forall>j \<in> set (ptr_offsets (?m0 (fst p))). snd p + 8 + 8 * j \<in> seen"
    by blast
  obtain scan s2 free2 where c: "c = (scan, s2, free2)" by (cases c)
  from i have st: "same_statics s s2"
    and lo: "laid_out ?m0 ?T cp free2"
    and di: "distinct (map fst cp)" and sub: "fst ` set cp \<subseteq> ?R"
    and ot: "\<And>x. \<not> in_from s x \<Longrightarrow> (in_to s x \<longrightarrow> x < free2) \<Longrightarrow>
               mem s2 x = (if x \<in> seen then fwd_val s cp (?m0 (src ?m0 cp x)) else ?m0 (src ?m0 cp x))"
    and dn: "\<And>x. x \<in> seen \<Longrightarrow> managed s (?m0 (src ?m0 cp x))
               \<Longrightarrow> unat (?m0 (src ?m0 cp x)) - 8 \<in> fst ` set cp"
    by (simp_all add: gc_inv_def c)
  define s' where "s' = (log_print (msg_swapping (pdiff free2 (to_space s2))) s2)
     \<lparr>from_space := to_space s2, to_space := from_space s2,
      bump_ptr := padd (to_space s2) (pdiff free2 (to_space s2))\<rparr>"
  have gc: "gc_collect top_frame s = Some s'"
    by (simp add: gc_collect_def Let_def w sl c s'_def)
  from st have f: "from_space s' = ?T" "to_space s' = from_space s" "heap_size s' = heap_size s"
    "base_frame_ptr s' = base_frame_ptr s" "mem s' = mem s2"
    "bump_ptr s' = padd (from_space s') (pdiff free2 ?T)"
    by (simp_all add: s'_def same_statics_def)
  \<comment> \<open>the new bump cursor is the final free cursor\<close>
  from laid_out_sum [OF lo] have sm: "?T + sum_list (map (obj_bytes ?m0) (map fst cp)) = free2" .
  then have "free2 - ?T = sum_list (map (obj_bytes ?m0) (map fst cp))" by simp
  with obj_bytes_dvd [of ?m0 "map fst cp"] have "8 dvd free2 - ?T" by simp
  then have "8 * ((free2 - ?T) div 8) = free2 - ?T" by simp
  with sm have bp: "bump_ptr s' = free2"
    by (simp add: f padd_bytes pdiff_def WORDSIZE_def)
  \<comment> \<open>what the reachable slots hold afterwards\<close>
  have roots: "mem s' a = fwd_val s cp (?m0 a)" if "a \<in> set ?roots" for a
  proof -
    from roots_off_heap [OF wf that] have o: "\<not> in_from s a" "\<not> in_to s a"
      by (simp_all add: off_heap_def)
    from that D have "a \<in> seen" by blast
    with ot [OF o(1)] o(2) src_off_to [OF h R i o(2)] show ?thesis by (simp add: f)
  qed
  have inside: "in_to s (snd p + k) \<and> snd p + k < free2 \<and> src ?m0 cp (snd p + k) = fst p + k"
    if "p \<in> set cp" "k < obj_bytes ?m0 (fst p)" for p k
  proof -
    from that(1) have pi: "(fst p, snd p) \<in> set cp" by simp
    from laid_out_mem [OF lo pi] gc_inv_free_bound(2) [OF h R i] that(2)
    have "in_to s (snd p + k)" "snd p + k < free2" by (simp_all add: in_to_def c)
    with src_copy [OF lo pi that(2)] show ?thesis by simp
  qed
  have heads: "mem s' (snd p) = ?m0 (fst p)" if "p \<in> set cp" for p
  proof -
    from hc that have n: "snd p \<notin> seen" by (simp add: heads_clear_def)
    from inside [OF that, of 0] obj_bytes_pos [of ?m0 "fst p"]
    have t: "in_to s (snd p)" "snd p < free2" "src ?m0 cp (snd p) = fst p" by simp_all
    from t(1) heap_ok_disjoint [OF h] have "\<not> in_from s (snd p)" by blast
    from ot [OF this] t n show ?thesis by (simp add: f)
  qed
  have kb: "8 + 8 * j < obj_bytes ?m0 (fst p)" if "j \<in> set (ptr_offsets (?m0 (fst p)))" for p j
    using ptr_offsets_bound [OF that] by (simp add: obj_bytes_def WORDSIZE_def)
  have fields: "mem s' (snd p + 8 + 8 * j) = fwd_val s cp (?m0 (fst p + 8 + 8 * j))"
    if "p \<in> set cp" "j \<in> set (ptr_offsets (?m0 (fst p)))" for p j
  proof -
    from fd that have n: "snd p + 8 + 8 * j \<in> seen" by blast
    from inside [OF that(1) kb [OF that(2)]]
    have t: "in_to s (snd p + 8 + 8 * j)" "snd p + 8 + 8 * j < free2"
      "src ?m0 cp (snd p + 8 + 8 * j) = fst p + 8 + 8 * j" by (simp_all add: add.assoc)
    from t(1) heap_ok_disjoint [OF h] have "\<not> in_from s (snd p + 8 + 8 * j)" by blast
    from ot [OF this] t n show ?thesis by (simp add: f)
  qed
  \<comment> \<open>every reachable object has been copied\<close>
  have "?R \<subseteq> fst ` set cp"
  proof
    fix x assume "x \<in> ?R"
    then show "x \<in> fst ` set cp"
    proof (induction rule: reach.induct)
      case (root a)
      from roots_off_heap [OF wf root(1)] have "\<not> in_to s a" by (simp add: off_heap_def)
      from src_off_to [OF h R i this] have "src ?m0 cp a = a" .
      with dn [of a] root D show ?case by auto
    next
      case (field obj j)
      from field(4) obtain p where p: "p \<in> set cp" "fst p = obj" by auto
      with field(2) have j: "j \<in> set (ptr_offsets (?m0 (fst p)))" by simp
      from fd p(1) j have n: "snd p + 8 + 8 * j \<in> seen" by blast
      from inside [OF p(1) kb [OF j]] have "src ?m0 cp (snd p + 8 + 8 * j) = obj + 8 + 8 * j"
        by (simp add: add.assoc p(2))
      with dn [OF n] field(3) show ?case by simp
    qed
  qed
  with sub have eq: "fst ` set cp = ?R" by blast
  show ?thesis
    by (rule exI [of _ s'], rule exI [of _ sf1], rule exI [of _ c], rule exI [of _ cp])
       (use w sl gc f bp lo di eq heads roots fields in \<open>simp add: c\<close>)
qed

subsection \<open>The example heap with aliased roots\<close>


lemma pt_free_mono: "snd sf \<le> snd (process_transitive slot sf)"
  by (simp add: process_transitive_def Let_def padd_def)

lemma fold_pt_free_mono: "snd sf \<le> snd (fold (\<lambda>j. process_transitive (g j)) xs sf)"
proof (induction xs arbitrary: sf)
  case Nil
  show ?case by simp
next
  case (Cons x xs)
  have "snd sf \<le> snd (process_transitive (g x) sf)" by (rule pt_free_mono)
  also have "\<dots> \<le> snd (fold (\<lambda>j. process_transitive (g j)) xs (process_transitive (g x) sf))"
    by (rule Cons.IH)
  finally show ?case by simp
qed

lemma scan_step_free_mono: "snd (snd c) \<le> snd (snd (scan_step c))"
proof (cases c)
  case (fields scan s free_ptr)
  have "free_ptr \<le> snd (fold (\<lambda>j. process_transitive (padd (padd scan 1) j))
      (ptr_offsets (mem s scan)) (log_print (msg_scanning (mem s scan)) s, free_ptr))"
    using fold_pt_free_mono [of "(log_print (msg_scanning (mem s scan)) s, free_ptr)"] by simp
  then show ?thesis by (simp add: fields scan_step_eq Let_def)
qed

lemma scan_states_ok:
  assumes h: "heap_ok s0 objs" and R: "R \<subseteq> set objs" and cl: "fields_closed s0 R"
    and ok: "scan_ok s0 R D c0" and c: "c \<in> scan_states c0"
  shows "scan_ok s0 R D c"
  using c
proof induction
  case start
  from ok show ?case .
next
  case (step c)
  from scan_ok_step(1) [OF h R cl step.IH step.hyps(2)] show ?case .
qed

lemma alias_heap_wf: "wf_heap alias_heap 8000 [8000, 8100] [4096, 4120, 4136]"
  by (simp add: alias_heap_def wf_heap_def heap_ok_def half_bytes_def in_to_def in_from_def
      obj_bytes_def frame_ok_def off_heap_def frame_slots_def root_slots_def ptr_ok_def
      managed_def ptr_offsets_def eval_defs upt_rec)

lemma alias_heap_collected:
  "\<exists>s'. gc_collect 8000 alias_heap = Some s' \<and> from_space s' = 4160 \<and> to_space s' = 4096
     \<and> bump_ptr s' = 4200 \<and> mem s' 7984 = 4168 \<and> mem s' 7976 = 4168 \<and> mem s' 8084 = 4192
     \<and> mem s' 4168 = 4192 \<and> mem s' 4160 = 22 \<and> mem s' 4184 = 10"
  by (simp add: alias_heap_def eval_defs)

lemma alias_heap_scanned:
  "\<exists>sf1 c'. walk_stack 0 8000 (alias_heap, 4160) = Some sf1 \<and> snd sf1 = 4200
     \<and> scan_loop (4160, log_print msg_starting_scan (fst sf1), snd sf1) = Some c'
     \<and> fst c' = 4200 \<and> snd (snd c') = 4200
     \<and> fst (scan_step (4160, log_print msg_starting_scan (fst sf1), snd sf1)) = 4184
     \<and> snd (snd (scan_step (4160, log_print msg_starting_scan (fst sf1), snd sf1))) = 4200"
  by (simp add: alias_heap_def eval_defs)

subsection \<open>The example heaps with a struct whose header has \<open>k = 0\<close>\<close>

lemmas wf_defs = wf_heap_def heap_ok_def half_bytes_def in_to_def in_from_def
      obj_bytes_def frame_ok_def off_heap_def frame_slots_def root_slots_def ptr_ok_def
      managed_def ptr_offsets_def


lemma k0b_heap_wf: "wf_heap k0b_heap 8000 [8000] [4096, 4120]"
  by (simp add: k0b_heap_def wf_defs eval_defs upt_rec)

lemma k0b_roots: "root_slots (mem k0b_heap) [8000] = [7984]"
  by (simp add: k0b_heap_def root_slots_def frame_slots_def psub_def WORDSIZE_def upt_rec)

lemma k0b_offsets:
  "spec_ptr_offsets (mem k0b_heap 4096) = [0]" "spec_ptr_offsets (mem k0b_heap 4120) = []"
  "mem k0b_heap 4104 = 4128" "mem k0b_heap 7984 = 4104"
  "managed k0b_heap 4104" "managed k0b_heap 4128"
  by (simp_all add: k0b_heap_def spec_ptr_offsets_def get_payload_words_def Let_def
      TAG_STRUCT_PTRS_def TAG_STRUCT_ATOMIC_def managed_def in_from_def half_bytes_def
      WORDSIZE_def upt_rec)

lemma k0b_spec_reach: "spec_reach k0b_heap [7984] = {4096, 4120}"
proof (rule set_eqI, rule iffI)
  fix x assume "x \<in> spec_reach k0b_heap [7984]"
  then show "x \<in> {4096, 4120}"
  proof induction
    case (root a)
    then show ?case by (simp add: k0b_offsets)
  next
    case (field obj j)
    from field.IH consider "obj = 4096" | "obj = 4120" by auto
    then show ?case
    proof cases
      case 1
      with field.hyps(2) have "j = 0" by (simp add: k0b_offsets)
      with 1 show ?thesis by (simp add: k0b_offsets)
    next
      case 2
      with field.hyps(2) show ?thesis by (simp add: k0b_offsets)
    qed
  qed
next
  fix x :: nat assume x: "x \<in> {4096, 4120}"
  have a: "4096 \<in> spec_reach k0b_heap [7984]"
    using spec_reach.root [of 7984 "[7984]" k0b_heap] by (simp add: k0b_offsets)
  have b: "4120 \<in> spec_reach k0b_heap [7984]"
    using spec_reach.field [OF a, of 0] by (simp add: k0b_offsets)
  from x a b show "x \<in> spec_reach k0b_heap [7984]" by auto
qed

subsection \<open>Copying, aliasing and the bump cursor\<close>




text \<open>
  C4, as the spec states it: after a collection the distance of the bump cursor from the
  new from-space base is the number of words of all reachable objects.  In the
  well-formed heap \<open>k0b_heap\<close> the objects reachable in the sense of the specification
  are the struct at 4096 and, through its field 0, the array at 4120; together they
  occupy 5 words.  The collection copies the struct only and leaves the bump cursor 3
  words above the new from-space base.
\<close>

theorem collect_misses_spec_reachable_counterexample:
  "wf_heap k0b_heap 8000 [8000] [4096, 4120]
   \<and> spec_reach k0b_heap (root_slots (mem k0b_heap) [8000]) = {4096, 4120}
   \<and> sum (obj_words (mem k0b_heap)) (spec_reach k0b_heap (root_slots (mem k0b_heap) [8000])) = 5
   \<and> map_option live_words (gc_collect 8000 k0b_heap) = Some 3"
  by (simp add: k0b_heap_wf k0b_roots k0b_spec_reach)
     (simp add: k0b_heap_def obj_words_def live_words_def eval_defs)

text \<open>
  C4, amended to the objects the collector traces.  A collection of a well-formed heap
  returns with the two base pointers exchanged and the bump cursor at the new from-space
  base plus \<open>L\<close> words, where \<open>L\<close> is the pointer difference of the final free cursor
  of the scan loop and the old to-space base; and then the distance in words of the bump
  cursor from the new from-space base is the sum, over the objects reachable from the
  roots through the fields the scan loop forwards (\<open>reach\<close>), of one header word plus
  the payload words.
\<close>

theorem collect_swaps_and_sets_bump:
  assumes wf: "wf_heap s top_frame fs objs"
  shows "\<exists>s' sf1 c. walk_stack 0 top_frame (s, to_space s) = Some sf1
     \<and> scan_loop (to_space s, log_print msg_starting_scan (fst sf1), snd sf1) = Some c
     \<and> gc_collect top_frame s = Some s'
     \<and> from_space s' = to_space s \<and> to_space s' = from_space s
     \<and> bump_ptr s' = padd (from_space s') (pdiff (snd (snd c)) (to_space s))
     \<and> pdiff (bump_ptr s') (from_space s')
         = (\<Sum>obj \<in> reach s (root_slots (mem s) fs). 1 + unat (get_payload_words (mem s obj)))"
proof -
  from gc_collect_correct [OF wf] obtain s' sf1 c cp where
    w: "walk_stack 0 top_frame (s, to_space s) = Some sf1"
    and sl: "scan_loop (to_space s, log_print msg_starting_scan (fst sf1), snd sf1) = Some c"
    and gc: "gc_collect top_frame s = Some s'"
    and sw: "from_space s' = to_space s" "to_space s' = from_space s"
    and bp: "bump_ptr s' = padd (from_space s') (pdiff (snd (snd c)) (to_space s))"
    and lo: "laid_out (mem s) (to_space s) cp (bump_ptr s')"
    and di: "distinct (map fst cp)"
    and re: "fst ` set cp = reach s (root_slots (mem s) fs)"
    by blast
  let ?W = "\<lambda>obj. 1 + unat (get_payload_words (mem s obj))"
  from di have "sum_list (map (obj_bytes (mem s)) (map fst cp)) = sum (obj_bytes (mem s)) (set (map fst cp))"
    by (rule sum_list_distinct_conv_sum_set)
  also have "set (map fst cp) = reach s (root_slots (mem s) fs)" using re by simp
  also have "sum (obj_bytes (mem s)) (reach s (root_slots (mem s) fs))
      = 8 * sum ?W (reach s (root_slots (mem s) fs))"
    by (simp add: obj_bytes_def WORDSIZE_def sum_distrib_left)
  finally have "to_space s + 8 * sum ?W (reach s (root_slots (mem s) fs)) = bump_ptr s'"
    using laid_out_sum [OF lo] by simp
  then have "pdiff (bump_ptr s') (from_space s') = sum ?W (reach s (root_slots (mem s) fs))"
    unfolding sw pdiff_def WORDSIZE_def by (metis add_diff_cancel_left' nonzero_mult_div_cancel_left zero_neq_numeral)
  with w sl gc sw bp show ?thesis by blast
qed

theorem collect_swaps_and_sets_bump_witness:
  "wf_heap alias_heap 8000 [8000, 8100] [4096, 4120, 4136]
   \<and> (\<exists>s'. gc_collect 8000 alias_heap = Some s'
        \<and> from_space s' = 4160 \<and> to_space s' = 4096 \<and> bump_ptr s' = 4200
        \<and> pdiff (bump_ptr s') (from_space s') = 5
        \<and> (\<Sum>obj \<in> reach alias_heap (root_slots (mem alias_heap) [8000, 8100]).
              1 + unat (get_payload_words (mem alias_heap obj))) = 5)"
proof -
  from collect_swaps_and_sets_bump [OF alias_heap_wf] obtain s' where
    gc: "gc_collect 8000 alias_heap = Some s'"
    and sm: "pdiff (bump_ptr s') (from_space s')
         = (\<Sum>obj \<in> reach alias_heap (root_slots (mem alias_heap) [8000, 8100]).
              1 + unat (get_payload_words (mem alias_heap obj)))"
    by blast
  from alias_heap_collected gc have v: "from_space s' = 4160" "to_space s' = 4096"
    "bump_ptr s' = 4200"
    by auto
  have p: "pdiff (bump_ptr s') (from_space s') = 5" by (simp add: v pdiff_def WORDSIZE_def)
  show ?thesis
    using alias_heap_wf gc v p sm by simp
qed

subsection \<open>Termination of the scan loop\<close>

text \<open>
  C9. In a collection of a well-formed heap (whose live data then fits in to-space)
  the root walk returns and the scan loop started after it returns, with the scan cursor
  equal to the free cursor. At every state at the head of the loop the scan cursor is at
  most the free cursor and the free cursor is at most the end of to-space; and when the
  loop body runs, it moves the scan cursor forward by one word plus the payload size read
  from the header under the cursor, to at most the new free cursor, and the free cursor
  does not move back.
\<close>

theorem scan_loop_terminates_bounded:
  assumes wf: "wf_heap s top_frame fs objs"
  shows "\<exists>sf1 c'. walk_stack 0 top_frame (s, to_space s) = Some sf1
     \<and> scan_loop (to_space s, log_print msg_starting_scan (fst sf1), snd sf1) = Some c'
     \<and> fst c' = snd (snd c')
     \<and> (\<forall>c \<in> scan_states (to_space s, log_print msg_starting_scan (fst sf1), snd sf1).
          fst c \<le> snd (snd c) \<and> snd (snd c) \<le> space_end s (to_space s)
          \<and> (fst c < snd (snd c) \<longrightarrow>
                fst (scan_step c)
                  = padd (fst c) (1 + unat (get_payload_words (mem (fst (snd c)) (fst c))))
                \<and> fst c < fst (scan_step c)
                \<and> fst (scan_step c) \<le> snd (snd (scan_step c))
                \<and> snd (snd c) \<le> snd (snd (scan_step c))))"
proof -
  let ?roots = "root_slots (mem s) fs"
  let ?R = "reach s ?roots"
  from wf have h: "heap_ok s objs" by (simp add: wf_heap_def)
  note R = reach_objs [OF wf]
  from collect_phases [OF wf] obtain sf1 c' where
    w: "walk_stack 0 top_frame (s, to_space s) = Some sf1"
    and ok0: "scan_ok s ?R (set ?roots) (to_space s, log_print msg_starting_scan (fst sf1), snd sf1)"
    and sl: "scan_loop (to_space s, log_print msg_starting_scan (fst sf1), snd sf1) = Some c'"
    and e: "fst c' = snd (snd c')"
    by blast
  let ?c0 = "(to_space s, log_print msg_starting_scan (fst sf1), snd sf1)"
  have "fst c \<le> snd (snd c) \<and> snd (snd c) \<le> space_end s (to_space s)
          \<and> (fst c < snd (snd c) \<longrightarrow>
                fst (scan_step c)
                  = padd (fst c) (1 + unat (get_payload_words (mem (fst (snd c)) (fst c))))
                \<and> fst c < fst (scan_step c)
                \<and> fst (scan_step c) \<le> snd (snd (scan_step c))
                \<and> snd (snd c) \<le> snd (snd (scan_step c)))"
    if c: "c \<in> scan_states ?c0" for c
  proof -
    from scan_states_ok [OF h R reach_closed ok0 c] have ok: "scan_ok s ?R (set ?roots) c" .
    note b = scan_ok_bounds [OF h R ok]
    have st: "fst (scan_step c)
                  = padd (fst c) (1 + unat (get_payload_words (mem (fst (snd c)) (fst c))))
                \<and> fst c < fst (scan_step c)
                \<and> fst (scan_step c) \<le> snd (snd (scan_step c))
                \<and> snd (snd c) \<le> snd (snd (scan_step c))"
      if lt: "fst c < snd (snd c)"
    proof -
      note s = scan_ok_step [OF h R reach_closed ok lt]
      note b' = scan_ok_bounds [OF h R s(1)]
      from s(2) have a: "fst (scan_step c)
          = padd (fst c) (1 + unat (get_payload_words (mem (fst (snd c)) (fst c))))"
        by (simp add: padd_def obj_bytes_def WORDSIZE_def)
      from a have l: "fst c < fst (scan_step c)" by (simp add: padd_def WORDSIZE_def)
      have m: "snd (snd c) \<le> snd (snd (scan_step c))"
        by (rule scan_step_free_mono)
      from a l b'(2) m show ?thesis by blast
    qed
    from b(2,3) have "fst c \<le> snd (snd c)" "snd (snd c) \<le> space_end s (to_space s)"
      by (simp_all add: space_end_half)
    with st show ?thesis by blast
  qed
  with w sl e show ?thesis by blast
qed

theorem scan_loop_terminates_bounded_witness:
  "wf_heap alias_heap 8000 [8000, 8100] [4096, 4120, 4136]
   \<and> (\<exists>sf1 c' c0. walk_stack 0 8000 (alias_heap, to_space alias_heap) = Some sf1
        \<and> c0 = (to_space alias_heap, log_print msg_starting_scan (fst sf1), snd sf1)
        \<and> scan_loop c0 = Some c' \<and> fst c' = 4200 \<and> snd (snd c') = 4200
        \<and> c0 \<in> scan_states c0
        \<and> fst c0 = 4160 \<and> snd (snd c0) = 4200 \<and> space_end alias_heap (to_space alias_heap) = 4224
        \<and> fst c0 < snd (snd c0)
        \<and> fst (scan_step c0) = padd (fst c0) (1 + unat (get_payload_words (mem (fst (snd c0)) (fst c0))))
        \<and> fst (scan_step c0) = 4184 \<and> snd (snd (scan_step c0)) = 4200)"
proof -
  from scan_loop_terminates_bounded [OF alias_heap_wf] obtain sf1 c' where
    w: "walk_stack 0 8000 (alias_heap, to_space alias_heap) = Some sf1"
    and sl: "scan_loop (to_space alias_heap, log_print msg_starting_scan (fst sf1), snd sf1) = Some c'"
    and e: "fst c' = snd (snd c')"
    and al: "\<forall>c \<in> scan_states (to_space alias_heap, log_print msg_starting_scan (fst sf1), snd sf1).
          fst c \<le> snd (snd c) \<and> snd (snd c) \<le> space_end alias_heap (to_space alias_heap)
          \<and> (fst c < snd (snd c) \<longrightarrow>
                fst (scan_step c)
                  = padd (fst c) (1 + unat (get_payload_words (mem (fst (snd c)) (fst c))))
                \<and> fst c < fst (scan_step c)
                \<and> fst (scan_step c) \<le> snd (snd (scan_step c))
                \<and> snd (snd c) \<le> snd (snd (scan_step c)))"
    by blast
  define c0 where "c0 = (to_space alias_heap, log_print msg_starting_scan (fst sf1), snd sf1)"
  have t: "to_space alias_heap = 4160" "space_end alias_heap (to_space alias_heap) = 4224"
    by (simp_all add: alias_heap_def space_end_def padd_def WORDSIZE_def)
  from alias_heap_scanned w sl have v: "snd sf1 = 4200" "fst c' = 4200" "snd (snd c') = 4200"
    "fst (scan_step c0) = 4184" "snd (snd (scan_step c0)) = 4200"
    by (auto simp: t c0_def)
  have m: "c0 \<in> scan_states c0" by (rule scan_states.start)
  have f: "fst c0 = 4160" "snd (snd c0) = 4200" by (simp_all add: c0_def t v)
  then have lt: "fst c0 < snd (snd c0)" by simp
  from al m lt have st: "fst (scan_step c0)
      = padd (fst c0) (1 + unat (get_payload_words (mem (fst (snd c0)) (fst c0))))"
    unfolding c0_def by blast
  from sl have sl': "scan_loop c0 = Some c'" by (simp add: c0_def)
  show ?thesis
    using alias_heap_wf w c0_def sl' v(2-5) m f t(2) lt st by blast
qed

end
